theory Spec2Isabelle
  imports Main "HOL-Library.Sublist"
begin

section \<open>Data model (src/types.ts)\<close>

text \<open>
  The records follow the TypeScript interfaces field by field. A nullable field is an
  \<open>option\<close>; an optional field (\<^verbatim>\<open>technical_settings?\<close>, \<^verbatim>\<open>used_model?\<close>) is an \<open>option\<close> too.
  JavaScript strings are lists of code units; \<open>char\<close> covers the code units up to U+00FF,
  which is the range every literal of the source lives in.
\<close>

datatype TargetModel = midjourney | stable_diffusion | firefly | dalle

datatype KeywordDensity = low | standard | high

record PromptConfig =
  targetModel :: TargetModel
  aspectRatio :: string
  includeTechnical :: bool
  keywordDensity :: KeywordDensity

record StockMetadata =
  title :: string
  description :: string
  ai_prompt :: string
  "keywords" :: "string list"
  category :: string
  technical_settings :: "string option"
  used_model :: "TargetModel option"

text \<open>
  A browser \<^verbatim>\<open>File\<close>: its name, its declared media type and its bytes.
\<close>

record File =
  name :: string
  type :: string
  bytes :: "nat list"

datatype Status = Pending | Processing | Completed | Error

text \<open>
  \<^verbatim>\<open>BatchItem.id\<close> is the field \<open>item_id\<close> here (\<open>id\<close> is the identity function of HOL).
\<close>

record BatchItem =
  item_id :: string
  "file" :: File
  status :: Status
  data :: "StockMetadata option"
  error :: "string option"

record AnalysisState =
  items :: "BatchItem list"
  isProcessing :: bool
  activeItemId :: "string option"

text \<open>
  A thrown JavaScript value, as far as the code reads it. \<open>Nullish\<close> is \<^verbatim>\<open>null\<close> or
  \<^verbatim>\<open>undefined\<close>, on which reading \<^verbatim>\<open>.message\<close> throws a TypeError. Any other value is
  \<open>JsError m\<close> with \<open>m\<close> its \<^verbatim>\<open>message\<close>, which it need not have. An \<^verbatim>\<open>Error\<close> made by
  \<^verbatim>\<open>new Error(text)\<close> is \<open>JsError (Some text)\<close>.
\<close>

datatype JsError = Nullish | JsError (message: "string option")

section \<open>String primitives of the JavaScript runtime\<close>

text \<open>
  \<^verbatim>\<open>String.prototype.trim\<close> strips white space and line terminators from both ends. Of
  the code units that \<open>char\<close> represents these are TAB, LF, VT, FF, CR, SPACE and NBSP.
\<close>

definition is_js_space :: "char \<Rightarrow> bool" where
  "is_js_space c = (of_char c \<in> {9, 10, 11, 12, 13, 32, 160 :: nat})"

definition trim :: "string \<Rightarrow> string" where
  "trim s = rev (dropWhile is_js_space (rev (dropWhile is_js_space s)))"

text \<open>
  \<^verbatim>\<open>s.substring(a, b)\<close> for non-negative integer arguments: the arguments are swapped when
  \<open>a > b\<close> and clamped to the length of \<open>s\<close>.
\<close>

definition substring :: "nat \<Rightarrow> nat \<Rightarrow> string \<Rightarrow> string" where
  "substring a b s = take (max a b - min a b) (drop (min a b) s)"

text \<open>
  \<^verbatim>\<open>s.replace(pat, rep)\<close> with a string pattern replaces the first occurrence only.
\<close>

fun replace_first :: "string \<Rightarrow> string \<Rightarrow> string \<Rightarrow> string" where
  "replace_first pat rep [] = (if pat = [] then rep else [])"
| "replace_first pat rep (c # cs) =
     (if prefix pat (c # cs) then rep @ drop (length pat) (c # cs)
      else c # replace_first pat rep cs)"

text \<open>Decimal rendering of a non-negative integer, as a template literal renders it.\<close>

definition digit_char :: "nat \<Rightarrow> char" where
  "digit_char d = ''0123456789'' ! d"

function string_of_nat :: "nat \<Rightarrow> string" where
  "string_of_nat n =
     (if n < 10 then [digit_char n] else string_of_nat (n div 10) @ [digit_char (n mod 10)])"
  by pat_completeness auto
termination
  by (relation "measure (\<lambda>n. n)") auto

section \<open>Keyword add (ResultCard, src/unnamed/part\_000 lines 306-312)\<close>

text \<open>
  \<^verbatim>\<open>addKeyword\<close> calls \<^verbatim>\<open>onUpdate\<close> with a new metadata value, or does nothing. The model
  returns the argument of \<^verbatim>\<open>onUpdate\<close>, or \<open>None\<close> when the guard fails. An empty string
  is falsy, so \<^verbatim>\<open>cleanKw && ...\<close> fails on it.
\<close>

definition addKeyword :: "StockMetadata \<Rightarrow> string \<Rightarrow> StockMetadata option" where
  "addKeyword d keyword =
     (let cleanKw = trim keyword in
      if cleanKw \<noteq> [] \<and> cleanKw \<notin> set (keywords d)
      then Some (d\<lparr>keywords := keywords d @ [cleanKw]\<rparr>)
      else None)"

text \<open>
  The unit's result after the operation: \<^verbatim>\<open>onUpdate\<close> replaces the result wholesale
  (\<^verbatim>\<open>handleUpdateItem\<close>), and nothing changes when it is not called.
\<close>

definition keywordAdded :: "StockMetadata \<Rightarrow> string \<Rightarrow> StockMetadata" where
  "keywordAdded d keyword = (case addKeyword d keyword of None \<Rightarrow> d | Some d' \<Rightarrow> d')"

section \<open>PDF decomposition (src/unnamed/part\_001, convertPdfToImages)\<close>

text \<open>
  The PDF engine and the canvas are the browser's. What the code sees of them is, for each
  page number, one of four outcomes: a step of the page pipeline throws
  (\<^verbatim>\<open>getPage\<close>, \<^verbatim>\<open>render\<close>); \<^verbatim>\<open>getContext('2d')\<close> is null; \<^verbatim>\<open>toBlob\<close> yields null; or a
  JPEG blob. A document is its page count and these outcomes; the environment says
  whether \<^verbatim>\<open>window.pdfjsLib\<close> is there and what \<^verbatim>\<open>getDocument\<close> does with a file
  (\<open>None\<close>: it throws, as on a corrupt or encrypted file).
\<close>

datatype PageRender = RenderThrows | NoContext | NoBlob | Blob "nat list"

record PdfDocument =
  numPages :: nat
  renderPage :: "nat \<Rightarrow> PageRender"

record PdfEnv =
  pdfjsLib :: bool
  getDocument :: "File \<Rightarrow> PdfDocument option"

text \<open>
  The loop \<^verbatim>\<open>for (let i = 1; i <= maxPages; i++)\<close> (lines 20-46). \<open>None\<close> is an exception
  leaving the loop; a null context or a null blob skips the page.
\<close>

function pageLoop :: "File \<Rightarrow> PdfDocument \<Rightarrow> nat \<Rightarrow> nat \<Rightarrow> File list \<Rightarrow> File list option" where
  "pageLoop pdfFile pdf maxPages i images =
     (if i \<le> maxPages then
        (case renderPage pdf i of
           RenderThrows \<Rightarrow> None
         | NoContext \<Rightarrow> pageLoop pdfFile pdf maxPages (Suc i) images
         | NoBlob \<Rightarrow> pageLoop pdfFile pdf maxPages (Suc i) images
         | Blob b \<Rightarrow>
             pageLoop pdfFile pdf maxPages (Suc i)
               (images @
                [\<lparr>name = replace_first ''.pdf'' [] (name pdfFile) @ ''_page_'' @ string_of_nat i @ ''.jpg'',
                  type = ''image/jpeg'', bytes = b\<rparr>]))
      else Some images)"
  by pat_completeness auto
termination
  by (relation "measure (\<lambda>(pdfFile, pdf, maxPages, i, images). Suc maxPages - i)") auto

declare pageLoop.simps [simp del]

definition convertPdfToImages :: "PdfEnv \<Rightarrow> File \<Rightarrow> JsError + File list" where
  "convertPdfToImages env pdfFile =
     (if \<not> pdfjsLib env
      then Inl (JsError (Some ''PDF Library not loaded. Please refresh the page.''))
      else
        (case getDocument env pdfFile of
           None \<Rightarrow>
             Inl (JsError (Some ''Gagal memproses file PDF. Pastikan file tidak rusak/terpassword.''))
         | Some pdf \<Rightarrow>
             (case pageLoop pdfFile pdf (min (numPages pdf) 10) 1 [] of
                None \<Rightarrow>
                  Inl (JsError (Some ''Gagal memproses file PDF. Pastikan file tidak rusak/terpassword.''))
              | Some images \<Rightarrow> Inr images)))"

section \<open>The generation backend (src/unnamed/part\_002)\<close>

text \<open>
  The remote model is outside the program. What a service function sees of one request is
  an \<open>ApiResponse\<close>: something inside its \<^verbatim>\<open>try\<close> throws (reading the file, the request,
  \<^verbatim>\<open>JSON.parse\<close>); the response has no text; or the text parses to a metadata object.
  Every failure is caught and rethrown with the function's own fixed message.
\<close>

datatype ApiResponse = ApiThrows | ApiNoText | ApiText StockMetadata

definition generateStockMetadata :: "ApiResponse \<Rightarrow> File \<Rightarrow> PromptConfig \<Rightarrow> JsError + StockMetadata" where
  "generateStockMetadata response f config =
     (case response of
        ApiText metadata \<Rightarrow> Inr (metadata\<lparr>used_model := Some (targetModel config)\<rparr>)
      | _ \<Rightarrow> Inl (JsError (Some ''Gagal menganalisis file. Pastikan API Key valid dan file tidak rusak.'')))"

definition refineMetadata ::
    "ApiResponse \<Rightarrow> StockMetadata \<Rightarrow> string \<Rightarrow> PromptConfig \<Rightarrow> JsError + StockMetadata" where
  "refineMetadata response currentData instruction config =
     (case response of
        ApiText metadata \<Rightarrow> Inr (metadata\<lparr>used_model := Some (targetModel config)\<rparr>)
      | _ \<Rightarrow> Inl (JsError (Some ''Gagal melakukan refine prompt.'')))"

text \<open>
  \<^verbatim>\<open>processBatchQueue\<close> is written against any generation capability: a function from what
  the environment does on this call, the file and the configuration to the settled value
  of the promise. \<open>generateStockMetadata\<close> is the one the program uses.
\<close>

type_synonym 'e Generate = "'e \<Rightarrow> File \<Rightarrow> PromptConfig \<Rightarrow> JsError + StockMetadata"

section \<open>The component App (src/App.tsx)\<close>

subsection \<open>State\<close>

text \<open>
  The component holds \<^verbatim>\<open>state\<close>, \<^verbatim>\<open>promptConfig\<close> and \<^verbatim>\<open>isRefining\<close>. Its asynchronous
  functions are suspended at an \<^verbatim>\<open>await\<close> between events, so the model keeps them too:

  \<^item> a \<open>Runner\<close> is one call of \<^verbatim>\<open>processBatchQueue\<close>: the array \<^verbatim>\<open>itemsToProcess\<close>, the
    position of the \<^verbatim>\<open>for ... of\<close> loop (the item whose generation call is awaited; the
    length of the array once the loop has ended), and \<open>captured\<close>, the \<^verbatim>\<open>promptConfig\<close>
    constant of the closure the function was created in;
  \<^item> a \<open>Refinement\<close> is one call of \<^verbatim>\<open>handleRefineItem\<close> awaiting \<^verbatim>\<open>refineMetadata\<close>, with
    the arguments of that call and the \<^verbatim>\<open>newAspectRatio\<close> it will write back;
  \<^item> \<open>calls\<close> lists the generation calls made so far, in order, each with the runner
    that made it and the arguments it passed.

  \<^verbatim>\<open>isPreparingFiles\<close> and \<^verbatim>\<open>showDisclaimer\<close> drive overlays only and are left out.
\<close>

record Runner =
  captured :: PromptConfig
  itemsToProcess :: "BatchItem list"
  pos :: nat

record Refinement =
  target :: string
  currentData :: StockMetadata
  instruction :: string
  refineConfig :: PromptConfig
  newAspectRatio :: string

record GenCall =
  caller :: nat
  callFile :: File
  callConfig :: PromptConfig

record App =
  state :: AnalysisState
  promptConfig :: PromptConfig
  isRefining :: bool
  runs :: "Runner list"
  refinements :: "Refinement list"
  calls :: "GenCall list"

definition init :: App where
  "init =
     \<lparr>state = \<lparr>items = [], isProcessing = False, activeItemId = None\<rparr>,
      promptConfig =
        \<lparr>targetModel = midjourney, aspectRatio = ''16:9'', includeTechnical = True,
          keywordDensity = standard\<rparr>,
      isRefining = False, runs = [], refinements = [], calls = []\<rparr>"

subsection \<open>State updaters\<close>

text \<open>
  Every change to one unit is written
  \<^verbatim>\<open>prev.items.map(i => i.id === id ? { ...i, <fields> } : i)\<close>; \<open>updateUnit\<close> is that
  expression, with the object spread as a function on the item.
\<close>

definition updateUnit :: "string \<Rightarrow> (BatchItem \<Rightarrow> BatchItem) \<Rightarrow> AnalysisState \<Rightarrow> AnalysisState" where
  "updateUnit x f prev = prev\<lparr>items := map (\<lambda>i. if item_id i = x then f i else i) (items prev)\<rparr>"

text \<open>
  \<^verbatim>\<open>error.message || "Failed to process"\<close> on the caught value: an absent or empty message
  is falsy, and on \<^verbatim>\<open>null\<close> or \<^verbatim>\<open>undefined\<close> the read of \<^verbatim>\<open>.message\<close> throws a TypeError,
  which is \<open>None\<close>.
\<close>

definition errorMessage :: "JsError \<Rightarrow> string option" where
  "errorMessage err =
     (case err of
        Nullish \<Rightarrow> None
      | JsError m \<Rightarrow>
          Some (case m of
                  Some text \<Rightarrow> if text \<noteq> [] then text else ''Failed to process''
                | None \<Rightarrow> ''Failed to process''))"

text \<open>
  The \<^verbatim>\<open>try\<close>/\<^verbatim>\<open>catch\<close> of the loop body (lines 61-81), on the settled value. The expression
  \<^verbatim>\<open>error.message || "Failed to process"\<close> stands inside the callback of \<^verbatim>\<open>map\<close> in the
  updater, in the branch of a unit with the id: it is evaluated when React runs the
  updater and the queue holds such a unit. Its TypeError unmounts the component and the
  session is over, which is \<open>None\<close> here as in \<open>appendItems\<close> below.
\<close>

definition settleItem :: "string \<Rightarrow> JsError + StockMetadata \<Rightarrow> AnalysisState \<Rightarrow> AnalysisState option" where
  "settleItem x outcome prev =
     (case outcome of
        Inr result \<Rightarrow> Some (updateUnit x (\<lambda>i. i\<lparr>status := Completed, data := Some result\<rparr>) prev)
      | Inl err \<Rightarrow>
          (case errorMessage err of
             None \<Rightarrow> if x \<in> set (map item_id (items prev)) then None else Some prev
           | Some text \<Rightarrow> Some (updateUnit x (\<lambda>i. i\<lparr>status := Error, error := Some text\<rparr>) prev)))"

subsection \<open>processBatchQueue (lines 50-85)\<close>

text \<open>
  \<open>dispatch\<close> is the head of one iteration up to its \<^verbatim>\<open>await\<close>: the unit is set to
  \<^verbatim>\<open>processing\<close> and \<^verbatim>\<open>generateStockMetadata(item.file, promptConfig)\<close> is called, with the
  closure's \<^verbatim>\<open>promptConfig\<close>. \<open>advance\<close> enters the next iteration, or leaves the loop and
  clears \<^verbatim>\<open>isProcessing\<close>.
\<close>

definition dispatch :: "nat \<Rightarrow> Runner \<Rightarrow> App \<Rightarrow> App" where
  "dispatch r rn app =
     (let item = itemsToProcess rn ! pos rn in
      app\<lparr>state := updateUnit (item_id item) (\<lambda>i. i\<lparr>status := Processing\<rparr>) (state app),
          calls := calls app @ [\<lparr>caller = r, callFile = file item, callConfig = captured rn\<rparr>]\<rparr>)"

definition advance :: "nat \<Rightarrow> Runner \<Rightarrow> App \<Rightarrow> App" where
  "advance r rn app =
     (if pos rn < length (itemsToProcess rn) then dispatch r rn app
      else app\<lparr>state := (state app)\<lparr>isProcessing := False\<rparr>\<rparr>)"

text \<open>
  The call itself runs to the first \<^verbatim>\<open>await\<close>; \<open>cfg\<close> is the \<^verbatim>\<open>promptConfig\<close> of the render
  whose closure is called.
\<close>

definition processBatchQueue_start :: "PromptConfig \<Rightarrow> BatchItem list \<Rightarrow> App \<Rightarrow> App" where
  "processBatchQueue_start cfg newItems app =
     (let rn = \<lparr>captured = cfg, itemsToProcess = newItems, pos = 0\<rparr> in
      advance (length (runs app)) rn
        (app\<lparr>state := (state app)\<lparr>isProcessing := True\<rparr>, runs := runs app @ [rn]\<rparr>))"

text \<open>
  The awaited call of runner \<open>r\<close> settles; \<open>e\<close> is what the environment did on that call.
  The runner stores the outcome and goes on to the next item. A runner that has ended
  has no call to settle. \<open>None\<close> is the end of the session in the TypeError of \<open>settleItem\<close>.
\<close>

definition processBatchQueue_resume :: "'e Generate \<Rightarrow> nat \<Rightarrow> 'e \<Rightarrow> App \<Rightarrow> App option" where
  "processBatchQueue_resume gen r e app =
     (if r < length (runs app) \<and> pos (runs app ! r) < length (itemsToProcess (runs app ! r))
      then
        (let rn = runs app ! r;
             item = itemsToProcess rn ! pos rn;
             rn' = rn\<lparr>pos := Suc (pos rn)\<rparr>
         in case settleItem (item_id item) (gen e (file item) (captured rn)) (state app) of
              None \<Rightarrow> None
            | Some st \<Rightarrow> Some (advance r rn' (app\<lparr>state := st, runs := (runs app)[r := rn']\<rparr>)))
      else Some app)"

text \<open>A whole run without interference: the calls settle one after the other.\<close>

fun processBatchQueue_run :: "'e Generate \<Rightarrow> nat \<Rightarrow> 'e list \<Rightarrow> App \<Rightarrow> App option" where
  "processBatchQueue_run gen r [] app = Some app"
| "processBatchQueue_run gen r (e # es) app =
     (case processBatchQueue_resume gen r e app of
        None \<Rightarrow> None
      | Some app' \<Rightarrow> processBatchQueue_run gen r es app')"

subsection \<open>handleFilesSelect (lines 87-133)\<close>

text \<open>
  \<^verbatim>\<open>Math.random().toString(36)\<close> is the environment's: \<open>generateId\<close> takes the two strings
  it returned.
\<close>

definition generateId :: "string \<Rightarrow> string \<Rightarrow> string" where
  "generateId r1 r2 = substring 2 15 r1 @ substring 2 15 r2"

text \<open>The loop over the selected files (lines 93-106), pushing to \<^verbatim>\<open>finalFiles\<close>.\<close>

fun collectFiles :: "PdfEnv \<Rightarrow> File list \<Rightarrow> File list \<Rightarrow> File list" where
  "collectFiles env [] finalFiles = finalFiles"
| "collectFiles env (f # files) finalFiles =
     (if type f = ''application/pdf'' then
        (case convertPdfToImages env f of
           Inr images \<Rightarrow> collectFiles env files (finalFiles @ images)
         | Inl e \<Rightarrow> collectFiles env files (finalFiles @ [f]))
      else collectFiles env files (finalFiles @ [f]))"

definition finalFiles :: "PdfEnv \<Rightarrow> File list \<Rightarrow> File list" where
  "finalFiles env files = collectFiles env files []"

text \<open>
  \<^verbatim>\<open>finalFiles.map(file => ({ id: generateId(), file, status: 'pending', ... }))\<close>: the
  unit at index \<open>j\<close> takes the random strings \<open>2 * j\<close> and \<open>2 * j + 1\<close> of this call.
\<close>

definition newItems :: "(nat \<Rightarrow> string) \<Rightarrow> File list \<Rightarrow> BatchItem list" where
  "newItems rand final =
     map (\<lambda>(j, f).
           \<lparr>item_id = generateId (rand (2 * j)) (rand (2 * j + 1)), file = f, status = Pending,
             data = None, error = None\<rparr>)
         (enumerate 0 final)"

text \<open>
  The updater of lines 116-124. \<^verbatim>\<open>prev.activeItemId || newItems[0].id\<close> reads
  \<^verbatim>\<open>newItems[0].id\<close> only when \<^verbatim>\<open>prev.activeItemId\<close> is null or empty; on an empty
  \<^verbatim>\<open>newItems\<close> that read throws a TypeError, which is \<open>None\<close> here.
\<close>

definition appendItems :: "BatchItem list \<Rightarrow> AnalysisState \<Rightarrow> AnalysisState option" where
  "appendItems new prev =
     (if activeItemId prev \<noteq> None \<and> activeItemId prev \<noteq> Some []
      then Some (prev\<lparr>items := items prev @ new\<rparr>)
      else
        (case new of
           [] \<Rightarrow> None
         | i # _ \<Rightarrow> Some (prev\<lparr>items := items prev @ new, activeItemId := Some (item_id i)\<rparr>)))"

text \<open>
  The handler as one step: the files are normalised, the units created and appended, and
  \<^verbatim>\<open>processBatchQueue(newItems)\<close> is called. The \<^verbatim>\<open>processBatchQueue\<close> it calls is the one of
  the render the handler belongs to, so the \<^verbatim>\<open>promptConfig\<close> of that closure is the shared
  configuration at the selection. The awaits of the PDF conversion are inside the step.
\<close>

definition handleFilesSelect :: "PdfEnv \<Rightarrow> (nat \<Rightarrow> string) \<Rightarrow> File list \<Rightarrow> App \<Rightarrow> App option" where
  "handleFilesSelect env rand files app =
     (let new = newItems rand (finalFiles env files) in
      case appendItems new (state app) of
        None \<Rightarrow> None
      | Some st \<Rightarrow> Some (processBatchQueue_start (promptConfig app) new (app\<lparr>state := st\<rparr>)))"

subsection \<open>The other handlers (lines 135-183) and the active card\<close>

definition handleClear :: "App \<Rightarrow> App" where
  "handleClear app = app\<lparr>state := \<lparr>items = [], isProcessing = False, activeItemId = None\<rparr>\<rparr>"

definition handleSelectItem :: "string \<Rightarrow> App \<Rightarrow> App" where
  "handleSelectItem x app = app\<lparr>state := (state app)\<lparr>activeItemId := Some x\<rparr>\<rparr>"

definition handleUpdateItem :: "string \<Rightarrow> StockMetadata \<Rightarrow> App \<Rightarrow> App" where
  "handleUpdateItem x newData app =
     app\<lparr>state := updateUnit x (\<lambda>item. item\<lparr>data := Some newData\<rparr>) (state app)\<rparr>"

text \<open>
  BatchResults (src/unnamed/part\_000 lines 25-28):
  \<^verbatim>\<open>items.find(item => item.id === activeItemId) || items[0]\<close>.
\<close>

definition activeItem :: "AnalysisState \<Rightarrow> BatchItem option" where
  "activeItem s =
     (case find (\<lambda>item. Some (item_id item) = activeItemId s) (items s) of
        Some item \<Rightarrow> Some item
      | None \<Rightarrow> (case items s of [] \<Rightarrow> None | item # _ \<Rightarrow> Some item))"

text \<open>
  The result card, and with it \<^verbatim>\<open>onUpdate\<close>, exists only for an active item that is
  \<^verbatim>\<open>completed\<close> and has data (lines 144-149); it calls \<^verbatim>\<open>onUpdateItem(activeItem.id, newData)\<close>.
\<close>

definition onUpdate :: "StockMetadata \<Rightarrow> App \<Rightarrow> App" where
  "onUpdate newData app =
     (case activeItem (state app) of
        None \<Rightarrow> app
      | Some a \<Rightarrow>
          if status a = Completed \<and> data a \<noteq> None then handleUpdateItem (item_id a) newData app
          else app)"

text \<open>
  \<^verbatim>\<open>handleRefineItem\<close> up to its \<^verbatim>\<open>await\<close> (lines 155-166). The second component is the
  settled promise when the function returns at once.
\<close>

definition handleRefineItem_call :: "string \<Rightarrow> string \<Rightarrow> string \<Rightarrow> App \<Rightarrow> App \<times> (JsError + unit) option" where
  "handleRefineItem_call x instr ratio app =
     (case find (\<lambda>i. item_id i = x) (items (state app)) of
        None \<Rightarrow> (app, Some (Inr ()))
      | Some item \<Rightarrow>
          (case data item of
             None \<Rightarrow> (app, Some (Inr ()))
           | Some d \<Rightarrow>
               (app\<lparr>isRefining := True,
                    refinements := refinements app @
                      [\<lparr>target = x, currentData = d, instruction = instr,
                        refineConfig = (promptConfig app)\<lparr>aspectRatio := ratio\<rparr>,
                        newAspectRatio = ratio\<rparr>]\<rparr>,
                None)))"

text \<open>
  The rest of \<^verbatim>\<open>handleRefineItem\<close> (lines 166-182) for the pending refinement \<open>k\<close>, on the
  response of the backend. The \<^verbatim>\<open>catch\<close> logs and swallows the error, so the promise of
  \<^verbatim>\<open>handleRefineItem\<close> resolves on both paths.
\<close>

definition handleRefineItem_settle :: "nat \<Rightarrow> ApiResponse \<Rightarrow> App \<Rightarrow> App \<times> (JsError + unit)" where
  "handleRefineItem_settle k response app =
     (if k < length (refinements app) then
        (let q = refinements app ! k;
             rest = take k (refinements app) @ drop (Suc k) (refinements app)
         in case refineMetadata response (currentData q) (instruction q) (refineConfig q) of
              Inr refinedResult \<Rightarrow>
                (app\<lparr>state := updateUnit (target q) (\<lambda>i. i\<lparr>data := Some refinedResult\<rparr>) (state app),
                     promptConfig := (promptConfig app)\<lparr>aspectRatio := newAspectRatio q\<rparr>,
                     isRefining := False, refinements := rest\<rparr>,
                 Inr ())
            | Inl err \<Rightarrow> (app\<lparr>isRefining := False, refinements := rest\<rparr>, Inr ()))
      else (app, Inr ()))"

text \<open>
  A whole call of \<^verbatim>\<open>handleRefineItem\<close> with no other event between the request and the
  response: the refinement it starts is the last of the pending ones.
\<close>

definition handleRefineItem ::
    "ApiResponse \<Rightarrow> string \<Rightarrow> string \<Rightarrow> string \<Rightarrow> App \<Rightarrow> App \<times> (JsError + unit)" where
  "handleRefineItem response x instr ratio app =
     (case handleRefineItem_call x instr ratio app of
        (app', Some settled) \<Rightarrow> (app', settled)
      | (app', None) \<Rightarrow> handleRefineItem_settle (length (refinements app)) response app')"

subsection \<open>Sessions\<close>

text \<open>
  What can happen to the component, one event at a time: a file selection (with the PDF
  environment and the random strings of that call), the settling of a runner's awaited
  generation call, an edit through the active result card, a selection, a reset, a
  refinement request and its settling, and \<^verbatim>\<open>setPromptConfig\<close> from the configuration panel.
  A session is a list of events from \<open>init\<close>; \<open>None\<close> is a session that ended in the
  TypeError of \<open>appendItems\<close> or of \<open>settleItem\<close>.
\<close>

datatype 'e Event =
    FilesSelect PdfEnv "nat \<Rightarrow> string" "File list"
  | GenSettled nat 'e
  | UpdateItem StockMetadata
  | SelectItem string
  | Clear
  | RefineItem string string string
  | RefineSettled nat ApiResponse
  | SetPromptConfig PromptConfig

fun step :: "'e Generate \<Rightarrow> 'e Event \<Rightarrow> App \<Rightarrow> App option" where
  "step gen (FilesSelect env rand files) app = handleFilesSelect env rand files app"
| "step gen (GenSettled r e) app = processBatchQueue_resume gen r e app"
| "step gen (UpdateItem newData) app = Some (onUpdate newData app)"
| "step gen (SelectItem x) app = Some (handleSelectItem x app)"
| "step gen Clear app = Some (handleClear app)"
| "step gen (RefineItem x instr ratio) app = Some (fst (handleRefineItem_call x instr ratio app))"
| "step gen (RefineSettled k response) app = Some (fst (handleRefineItem_settle k response app))"
| "step gen (SetPromptConfig cfg) app = Some (app\<lparr>promptConfig := cfg\<rparr>)"

fun run :: "'e Generate \<Rightarrow> 'e Event list \<Rightarrow> App \<Rightarrow> App option" where
  "run gen [] app = Some app"
| "run gen (ev # evs) app = (case step gen ev app of None \<Rightarrow> None | Some app' \<Rightarrow> run gen evs app')"

text \<open>The ids created by an event.\<close>

fun created :: "'e Event \<Rightarrow> string list" where
  "created (FilesSelect env rand files) = map item_id (newItems rand (finalFiles env files))"
| "created _ = []"

section \<open>Predicates on sessions\<close>

text \<open>
  The predicates the proofs about sessions use. \<open>unit_ok\<close> ties a unit's result and error
  message to its status. \<open>units_at x P\<close> says that \<open>P\<close> holds of every unit of the queue
  with the id \<open>x\<close>, and \<open>upd\<close> is the list operation of \<open>updateUnit\<close>. A runner at
  position \<open>p\<close> expects the status \<open>phase p j\<close> of its unit \<open>j\<close>: terminal before
  \<open>p\<close>, \<^verbatim>\<open>processing\<close> at \<open>p\<close>, \<^verbatim>\<open>pending\<close> after it. \<open>session_inv I\<close> collects what
  holds of a session that has created the ids \<open>I\<close>.
\<close>

definition unit_ok :: "BatchItem \<Rightarrow> bool" where
  "unit_ok i = ((data i \<noteq> None) = (status i = Completed) \<and> (error i \<noteq> None) = (status i = Error))"

definition units_at :: "string \<Rightarrow> (BatchItem \<Rightarrow> bool) \<Rightarrow> BatchItem list \<Rightarrow> bool" where
  "units_at x P its = (\<forall>i \<in> set its. item_id i = x \<longrightarrow> P i)"

definition phase :: "nat \<Rightarrow> nat \<Rightarrow> Status \<Rightarrow> bool" where
  "phase p j st =
     (if j < p then st = Completed \<or> st = Error
      else if j = p then st = Processing
      else st = Pending)"

definition runner_ids :: "Runner \<Rightarrow> string list" where
  "runner_ids rn = map item_id (itemsToProcess rn)"

definition runner_ok :: "string set \<Rightarrow> BatchItem list \<Rightarrow> Runner \<Rightarrow> bool" where
  "runner_ok I its rn =
     (distinct (runner_ids rn) \<and> set (runner_ids rn) \<subseteq> I \<and> pos rn \<le> length (itemsToProcess rn)
      \<and> (\<forall>j < length (itemsToProcess rn).
            units_at (runner_ids rn ! j) (\<lambda>i. phase (pos rn) j (status i)) its)
      \<and> (set (runner_ids rn) \<subseteq> item_id ` set its \<or> set (runner_ids rn) \<inter> item_id ` set its = {}))"

definition refinement_ok :: "string set \<Rightarrow> BatchItem list \<Rightarrow> Refinement \<Rightarrow> bool" where
  "refinement_ok I its q = (target q \<in> I \<and> units_at (target q) (\<lambda>i. status i = Completed) its)"

definition queue_inv :: "string set \<Rightarrow> BatchItem list \<Rightarrow> Runner list \<Rightarrow> Refinement list \<Rightarrow> bool" where
  "queue_inv I its rns qs =
     ((\<forall>i \<in> set its. unit_ok i)
      \<and> distinct (map item_id its)
      \<and> item_id ` set its \<subseteq> I
      \<and> (\<forall>rn \<in> set rns. runner_ok I its rn)
      \<and> (\<forall>a b. a < b \<and> b < length rns \<longrightarrow>
            set (runner_ids (rns ! a)) \<inter> set (runner_ids (rns ! b)) = {})
      \<and> (\<forall>q \<in> set qs. refinement_ok I its q))"

definition session_inv :: "string set \<Rightarrow> App \<Rightarrow> bool" where
  "session_inv I app = queue_inv I (items (state app)) (runs app) (refinements app)"

definition upd :: "string \<Rightarrow> (BatchItem \<Rightarrow> BatchItem) \<Rightarrow> BatchItem list \<Rightarrow> BatchItem list" where
  "upd x f its = map (\<lambda>i. if item_id i = x then f i else i) its"

text \<open>
  \<open>calls_ok\<close>: every logged call names an existing runner and carries that runner's
  captured configuration. \<open>runs_extend\<close>: runners are only added, and keep their batch and
  their configuration.
\<close>

definition calls_ok :: "App \<Rightarrow> bool" where
  "calls_ok app =
     (\<forall>c \<in> set (calls app). caller c < length (runs app) \<and> callConfig c = captured (runs app ! caller c))"

definition runs_extend :: "App \<Rightarrow> App \<Rightarrow> bool" where
  "runs_extend app app' =
     (length (runs app) \<le> length (runs app')
      \<and> (\<forall>n < length (runs app).
            captured (runs app' ! n) = captured (runs app ! n)
            \<and> itemsToProcess (runs app' ! n) = itemsToProcess (runs app ! n)))"

text \<open>
  For one run of one runner: the item update of \<open>settleItem\<close> as a function, the runner
  \<open>r\<close> standing at position \<open>n\<close> of the batch \<open>new\<close>, and two states that agree on
  runners, calls and every unit whose id is not \<open>x\<close>.
\<close>

definition settleFn :: "JsError + StockMetadata \<Rightarrow> BatchItem \<Rightarrow> BatchItem" where
  "settleFn outcome =
     (case outcome of
        Inr result \<Rightarrow> (\<lambda>i. i\<lparr>status := Completed, data := Some result\<rparr>)
      | Inl err \<Rightarrow> (\<lambda>i. i\<lparr>status := Error, error := errorMessage err\<rparr>))"

text \<open>
  The state after a settled call and after a run when no TypeError ends the session:
  \<open>processBatchQueue_resume\<close> and \<open>processBatchQueue_run\<close> return these, or \<open>None\<close>.
\<close>

definition resumed :: "'e Generate \<Rightarrow> nat \<Rightarrow> 'e \<Rightarrow> App \<Rightarrow> App" where
  "resumed gen r e app =
     (if r < length (runs app) \<and> pos (runs app ! r) < length (itemsToProcess (runs app ! r))
      then
        (let rn = runs app ! r;
             item = itemsToProcess rn ! pos rn;
             rn' = rn\<lparr>pos := Suc (pos rn)\<rparr>
         in advance r rn'
              (app\<lparr>state := updateUnit (item_id item) (settleFn (gen e (file item) (captured rn))) (state app),
                   runs := (runs app)[r := rn']\<rparr>))
      else app)"

definition ran :: "'e Generate \<Rightarrow> nat \<Rightarrow> 'e list \<Rightarrow> App \<Rightarrow> App" where
  "ran gen r es app = foldl (\<lambda>a e. resumed gen r e a) app es"

definition runner_at :: "nat \<Rightarrow> BatchItem list \<Rightarrow> PromptConfig \<Rightarrow> nat \<Rightarrow> App \<Rightarrow> bool" where
  "runner_at r new cfg n app =
     (r < length (runs app) \<and> runs app ! r = \<lparr>captured = cfg, itemsToProcess = new, pos = n\<rparr>)"

definition same_but :: "string \<Rightarrow> App \<Rightarrow> App \<Rightarrow> bool" where
  "same_but x a b =
     (runs a = runs b \<and> calls a = calls b
      \<and> filter (\<lambda>i. item_id i \<noteq> x) (items (state a)) = filter (\<lambda>i. item_id i \<noteq> x) (items (state b)))"

section \<open>Example values\<close>

definition d0 :: StockMetadata where
  "d0 =
     \<lparr>title = ''t'', description = ''d'', ai_prompt = ''p'', keywords = [''sea''],
      category = ''c'', technical_settings = None, used_model = None\<rparr>"

definition d1 :: StockMetadata where
  "d1 = d0\<lparr>keywords := [''sea'', ''sea'']\<rparr>"

definition deck :: File where
  "deck = \<lparr>name = ''deck.pdf'', type = ''application/pdf'', bytes = [37, 80, 68, 70]\<rparr>"

definition doc12 :: PdfDocument where
  "doc12 = \<lparr>numPages = 12, renderPage = (\<lambda>i. Blob [i])\<rparr>"

definition browser :: PdfEnv where
  "browser = \<lparr>pdfjsLib = True, getDocument = (\<lambda>f. Some doc12)\<rparr>"

definition photo :: File where
  "photo = \<lparr>name = ''a.jpg'', type = ''image/jpeg'', bytes = [255, 216]\<rparr>"

definition noLibrary :: PdfEnv where
  "noLibrary = \<lparr>pdfjsLib = False, getDocument = (\<lambda>f. None)\<rparr>"

definition blankPage :: PdfEnv where
  "blankPage = \<lparr>pdfjsLib = True, getDocument = (\<lambda>f. Some \<lparr>numPages = 1, renderPage = (\<lambda>i. NoBlob)\<rparr>)\<rparr>"

definition rand0 :: "nat \<Rightarrow> string" where
  "rand0 n = (if n = 0 then ''0.ab'' else if n = 1 then ''0.c'' else if n = 2 then ''0.a'' else ''0.bc'')"

definition config0 :: PromptConfig where
  "config0 = \<lparr>targetModel = midjourney, aspectRatio = ''16:9'', includeTechnical = True, keywordDensity = standard\<rparr>"

definition unitDone :: BatchItem where
  "unitDone = \<lparr>item_id = ''abc'', file = photo, status = Completed,
      data = Some (d0\<lparr>used_model := Some midjourney\<rparr>), error = None\<rparr>"

definition appDone :: App where
  "appDone =
     \<lparr>state = \<lparr>items = [unitDone], isProcessing = False, activeItemId = Some ''abc''\<rparr>,
      promptConfig = config0, isRefining = False,
      runs = [\<lparr>captured = config0,
               itemsToProcess = [\<lparr>item_id = ''abc'', file = photo, status = Pending, data = None, error = None\<rparr>],
               pos = 1\<rparr>],
      refinements = [],
      calls = [\<lparr>caller = 0, callFile = photo, callConfig = config0\<rparr>]\<rparr>"

definition rand1 :: "nat \<Rightarrow> string" where
  "rand1 n = (if n < 2 then ''0.a'' else if n < 4 then ''0.b'' else ''0.c'')"

definition session2 :: "ApiResponse Event list" where
  "session2 = [FilesSelect noLibrary rand1 [photo, deck], GenSettled 0 (ApiText d0)]"

definition batch2 :: "BatchItem list" where
  "batch2 = newItems rand1 [photo, deck]"

definition appBatch2 :: App where
  "appBatch2 = init\<lparr>state := \<lparr>items = batch2, isProcessing = False, activeItemId = Some ''aa''\<rparr>\<rparr>"

definition session3 :: "ApiResponse Event list" where
  "session3 =
     [FilesSelect noLibrary rand1 [photo, deck, photo], GenSettled 0 (ApiText d0),
      RefineItem ''aa'' ''warmer light'' ''1:1'', RefineSettled 0 (ApiText d0)]"

definition batch3 :: "BatchItem list" where
  "batch3 = newItems rand1 [photo, deck, photo]"

definition appBatch3 :: App where
  "appBatch3 = init\<lparr>state := \<lparr>items = batch3, isProcessing = False, activeItemId = Some ''aa''\<rparr>\<rparr>"

definition twins :: "BatchItem list" where
  "twins = newItems rand0 [photo, deck]"

definition appTwins :: App where
  "appTwins = init\<lparr>state := \<lparr>items = twins, isProcessing = False, activeItemId = Some ''abc''\<rparr>\<rparr>"

definition doc12gap :: PdfDocument where
  "doc12gap = \<lparr>numPages = 12, renderPage = (\<lambda>i. if i = 2 then NoBlob else Blob [i])\<rparr>"

definition browserGap :: PdfEnv where
  "browserGap = \<lparr>pdfjsLib = True, getDocument = (\<lambda>f. Some doc12gap)\<rparr>"

definition scan :: File where
  "scan = \<lparr>name = ''SCAN.PDF'', type = ''application/pdf'', bytes = [37, 80, 68, 70]\<rparr>"


section \<open>Keyword add\<close>

lemma trim_sun: "trim '' sun '' = ''sun''"
  by (simp add: trim_def is_js_space_def)

lemma trim_blank: "trim ''  '' = []"
  by (simp add: trim_def is_js_space_def)

text \<open>
  C9, as the code has it. The add operation does nothing when the trimmed keyword is empty
  or already occurs verbatim in the unit's keyword sequence; otherwise it appends the
  trimmed keyword at the end. Adding the same keyword twice gives the same result as
  adding it once; when the trimmed keyword is not empty and did not occur before, it then
  occurs exactly once, at the end of the original sequence.
\<close>

theorem addKeyword_amended:
  "(trim kw = [] \<or> trim kw \<in> set (keywords d) \<longrightarrow>
      addKeyword d kw = None \<and> keywordAdded d kw = d)
   \<and> (trim kw \<noteq> [] \<and> trim kw \<notin> set (keywords d) \<longrightarrow>
      addKeyword d kw = Some (d\<lparr>keywords := keywords d @ [trim kw]\<rparr>)
      \<and> keywordAdded d kw = d\<lparr>keywords := keywords d @ [trim kw]\<rparr>
      \<and> count_list (keywords (keywordAdded (keywordAdded d kw) kw)) (trim kw) = 1
      \<and> keywords (keywordAdded (keywordAdded d kw) kw) ! length (keywords d) = trim kw)
   \<and> keywordAdded (keywordAdded d kw) kw = keywordAdded d kw"
  by (auto simp: addKeyword_def keywordAdded_def Let_def count_list_0_iff)

theorem addKeyword_amended_witness:
  "trim '' sun '' \<noteq> [] \<and> trim '' sun '' \<notin> set (keywords d0)
   \<and> keywords (keywordAdded d0 '' sun '') = [''sea'', ''sun'']
   \<and> keywords (keywordAdded (keywordAdded d0 '' sun '') '' sun '') = [''sea'', ''sun'']
   \<and> addKeyword (keywordAdded d0 '' sun '') '' sun '' = None"
  using addKeyword_amended [of "'' sun ''" d0]
  by (simp add: trim_sun d0_def addKeyword_def keywordAdded_def)

text \<open>
  C9 as stated fails twice. A keyword of blanks only is trimmed to the empty string, which
  does not occur in the sequence, and yet nothing is appended. And a keyword that the
  backend delivered twice still occurs twice after it is added twice.
\<close>

theorem addKeyword_counterexample:
  "trim ''  '' \<notin> set (keywords d0)
   \<and> keywords (keywordAdded d0 ''  '') \<noteq> keywords d0 @ [trim ''  '']
   \<and> count_list (keywords (keywordAdded (keywordAdded d1 ''sea'') ''sea'')) ''sea'' = 2"
  by (simp add: trim_blank d0_def d1_def addKeyword_def keywordAdded_def trim_def is_js_space_def)

section \<open>PDF decomposition\<close>

lemma pageLoop_all_blobs:
  "(\<forall>i. lo \<le> i \<and> i \<le> m \<longrightarrow> (\<exists>b. renderPage pdf i = Blob b)) \<Longrightarrow>
   \<exists>imgs. pageLoop f pdf m lo images = Some (images @ imgs) \<and> length imgs = Suc m - lo \<and>
     (\<forall>k < Suc m - lo.
        name (imgs ! k) = replace_first ''.pdf'' [] (name f) @ ''_page_'' @ string_of_nat (lo + k) @ ''.jpg''
        \<and> type (imgs ! k) = ''image/jpeg'' \<and> renderPage pdf (lo + k) = Blob (bytes (imgs ! k)))"
proof (induction f pdf m lo images rule: pageLoop.induct)
  case (1 f pdf m i images)
  show ?case
  proof (cases "i \<le> m")
    case False
    then show ?thesis by (simp add: pageLoop.simps)
  next
    case True
    with "1.prems" obtain b where b: "renderPage pdf i = Blob b" by blast
    let ?img = "\<lparr>name = replace_first ''.pdf'' [] (name f) @ ''_page_'' @ string_of_nat i @ ''.jpg'', type = ''image/jpeg'', bytes = b\<rparr>"
    from "1.prems" have "\<forall>j. Suc i \<le> j \<and> j \<le> m \<longrightarrow> (\<exists>b. renderPage pdf j = Blob b)" by simp
    from "1.IH"(3) [OF True b this]
    obtain rest where rest: "pageLoop f pdf m (Suc i) (images @ [?img]) = Some ((images @ [?img]) @ rest)"
      "length rest = Suc m - Suc i"
      "\<forall>k < Suc m - Suc i. name (rest ! k) = replace_first ''.pdf'' [] (name f) @ ''_page_'' @ string_of_nat (Suc i + k) @ ''.jpg''
        \<and> type (rest ! k) = ''image/jpeg'' \<and> renderPage pdf (Suc i + k) = Blob (bytes (rest ! k))"
      by blast
    have eq: "pageLoop f pdf m i images = Some (images @ (?img # rest))"
      using True b rest(1) by (subst pageLoop.simps) simp
    have len: "length (?img # rest) = Suc m - i" using True rest(2) by simp
    have each: "\<forall>k < Suc m - i. name ((?img # rest) ! k) = replace_first ''.pdf'' [] (name f) @ ''_page_'' @ string_of_nat (i + k) @ ''.jpg''
        \<and> type ((?img # rest) ! k) = ''image/jpeg'' \<and> renderPage pdf (i + k) = Blob (bytes ((?img # rest) ! k))"
    proof (intro allI impI)
      fix k assume k: "k < Suc m - i"
      show "name ((?img # rest) ! k) = replace_first ''.pdf'' [] (name f) @ ''_page_'' @ string_of_nat (i + k) @ ''.jpg''
        \<and> type ((?img # rest) ! k) = ''image/jpeg'' \<and> renderPage pdf (i + k) = Blob (bytes ((?img # rest) ! k))"
      proof (cases k)
        case 0
        then show ?thesis using b by simp
      next
        case (Suc k')
        with k have "k' < Suc m - Suc i" by simp
        with rest(3) Suc show ?thesis by simp
      qed
    qed
    from eq len each show ?thesis by blast
  qed
qed

lemma replace_first_suffix:
  "CHR ''.'' \<notin> set base \<Longrightarrow> replace_first (CHR ''.'' # ext) [] (base @ CHR ''.'' # ext) = base"
  by (induction base) auto

text \<open>
  C7, as the code has it. A page whose canvas has no 2d context, or whose canvas gives no
  blob, is skipped without an error, and the name of an image is built by removing the
  first \<^verbatim>\<open>.pdf\<close> of the file's name. When the PDF library is loaded, the document opens
  with more than 10 pages and each of the pages 1 to 10 renders to a blob, \<open>convertPdfToImages\<close> returns exactly 10 JPEG
  files, the image at position K being page K, named by the file's name with its first
  \<^verbatim>\<open>.pdf\<close> removed, then \<^verbatim>\<open>_page_K.jpg\<close>: \<^verbatim>\<open>base_page_K.jpg\<close> for a file \<^verbatim>\<open>base.pdf\<close>.
\<close>

theorem convertPdfToImages_cap:
  assumes lib: "pdfjsLib env"
    and doc: "getDocument env pdfFile = Some pdf"
    and big: "10 < numPages pdf"
    and ok: "\<forall>i. 1 \<le> i \<and> i \<le> 10 \<longrightarrow> (\<exists>b. renderPage pdf i = Blob b)"
  shows "\<exists>images. convertPdfToImages env pdfFile = Inr images \<and> length images = 10 \<and>
     (\<forall>K. 1 \<le> K \<and> K \<le> 10 \<longrightarrow>
        name (images ! (K - 1)) =
          replace_first ''.pdf'' [] (name pdfFile) @ ''_page_'' @ string_of_nat K @ ''.jpg''
        \<and> type (images ! (K - 1)) = ''image/jpeg''
        \<and> renderPage pdf K = Blob (bytes (images ! (K - 1)))
        \<and> (\<forall>base. name pdfFile = base @ ''.pdf'' \<and> CHR ''.'' \<notin> set base \<longrightarrow>
             name (images ! (K - 1)) = base @ ''_page_'' @ string_of_nat K @ ''.jpg''))"
proof -
  from big have m: "min (numPages pdf) 10 = 10" by simp
  from ok have "\<forall>i. 1 \<le> i \<and> i \<le> 10 \<longrightarrow> (\<exists>b. renderPage pdf i = Blob b)" .
  from pageLoop_all_blobs [OF this, of pdfFile "[]"]
  obtain imgs where imgs: "pageLoop pdfFile pdf 10 1 [] = Some imgs" "length imgs = 10"
    "\<forall>k < 10. name (imgs ! k) = replace_first ''.pdf'' [] (name pdfFile) @ ''_page_'' @ string_of_nat (1 + k) @ ''.jpg''
        \<and> type (imgs ! k) = ''image/jpeg'' \<and> renderPage pdf (1 + k) = Blob (bytes (imgs ! k))"
    by auto
  have conv: "convertPdfToImages env pdfFile = Inr imgs"
    using lib doc m imgs(1) by (simp add: convertPdfToImages_def)
  have each: "\<forall>K. 1 \<le> K \<and> K \<le> 10 \<longrightarrow>
        name (imgs ! (K - 1)) =
          replace_first ''.pdf'' [] (name pdfFile) @ ''_page_'' @ string_of_nat K @ ''.jpg''
        \<and> type (imgs ! (K - 1)) = ''image/jpeg''
        \<and> renderPage pdf K = Blob (bytes (imgs ! (K - 1)))
        \<and> (\<forall>base. name pdfFile = base @ ''.pdf'' \<and> CHR ''.'' \<notin> set base \<longrightarrow>
             name (imgs ! (K - 1)) = base @ ''_page_'' @ string_of_nat K @ ''.jpg'')"
  proof (intro allI impI)
    fix K :: nat assume K: "1 \<le> K \<and> K \<le> 10"
    then have "K - 1 < 10" and "1 + (K - 1) = K" by arith+
    with imgs(3) have base: "name (imgs ! (K - 1)) = replace_first ''.pdf'' [] (name pdfFile) @ ''_page_'' @ string_of_nat K @ ''.jpg''
        \<and> type (imgs ! (K - 1)) = ''image/jpeg'' \<and> renderPage pdf K = Blob (bytes (imgs ! (K - 1)))"
      by metis
    have "\<forall>base. name pdfFile = base @ ''.pdf'' \<and> CHR ''.'' \<notin> set base \<longrightarrow>
             name (imgs ! (K - 1)) = base @ ''_page_'' @ string_of_nat K @ ''.jpg''"
      using base replace_first_suffix [of _ "''pdf''"] by auto
    with base show "name (imgs ! (K - 1)) =
          replace_first ''.pdf'' [] (name pdfFile) @ ''_page_'' @ string_of_nat K @ ''.jpg''
        \<and> type (imgs ! (K - 1)) = ''image/jpeg''
        \<and> renderPage pdf K = Blob (bytes (imgs ! (K - 1)))
        \<and> (\<forall>base. name pdfFile = base @ ''.pdf'' \<and> CHR ''.'' \<notin> set base \<longrightarrow>
             name (imgs ! (K - 1)) = base @ ''_page_'' @ string_of_nat K @ ''.jpg'')" by blast
  qed
  from conv imgs(2) each show ?thesis by blast
qed

theorem convertPdfToImages_cap_witness:
  "pdfjsLib browser \<and> getDocument browser deck = Some doc12 \<and> 10 < numPages doc12
   \<and> (\<exists>images. convertPdfToImages browser deck = Inr images \<and> length images = 10
        \<and> name (images ! 0) = ''deck_page_1.jpg'' \<and> name (images ! 9) = ''deck_page_10.jpg'')"
proof -
  have lib: "pdfjsLib browser" and doc: "getDocument browser deck = Some doc12"
    and big: "10 < numPages doc12"
    and ok: "\<forall>i. 1 \<le> i \<and> i \<le> 10 \<longrightarrow> (\<exists>b. renderPage doc12 i = Blob b)"
    by (simp_all add: browser_def doc12_def)
  from convertPdfToImages_cap [OF lib doc big ok]
  obtain images where im: "convertPdfToImages browser deck = Inr images" "length images = 10"
    and each: "\<forall>K. 1 \<le> K \<and> K \<le> 10 \<longrightarrow>
        name (images ! (K - 1)) =
          replace_first ''.pdf'' [] (name deck) @ ''_page_'' @ string_of_nat K @ ''.jpg''"
    by blast
  from each [rule_format, of 1] have n1: "name (images ! 0) = ''deck_page_1.jpg''"
    by (simp add: deck_def digit_char_def)
  from each [rule_format, of 10] have n10: "name (images ! 9) = ''deck_page_10.jpg''"
    by (simp add: deck_def digit_char_def)
  from lib doc big im n1 n10 show ?thesis by blast
qed

text \<open>
  C7 as stated fails. A document of 12 pages whose page 2 gives no blob is decomposed,
  without an error, into 9 images: the pages 1 and 3 to 10. And the name of an image is
  not one function of the original name: \<^verbatim>\<open>deck.pdf\<close> loses its extension in
  \<^verbatim>\<open>deck_page_1.jpg\<close>, \<^verbatim>\<open>SCAN.PDF\<close> keeps it in \<^verbatim>\<open>SCAN.PDF_page_1.jpg\<close>.
\<close>

theorem convertPdfToImages_cap_counterexample:
  "pdfjsLib browserGap \<and> getDocument browserGap deck = Some doc12gap \<and> 10 < numPages doc12gap
   \<and> map_sum (\<lambda>e. e) (\<lambda>images. (length images, map name images)) (convertPdfToImages browserGap deck)
       = Inr (9, [''deck_page_1.jpg'', ''deck_page_3.jpg'', ''deck_page_4.jpg'', ''deck_page_5.jpg'',
                  ''deck_page_6.jpg'', ''deck_page_7.jpg'', ''deck_page_8.jpg'', ''deck_page_9.jpg'',
                  ''deck_page_10.jpg''])
   \<and> map_sum (\<lambda>e. e) (\<lambda>images. (length images, name (images ! 0))) (convertPdfToImages browser scan)
       = Inr (10, ''SCAN.PDF_page_1.jpg'')"
  by (simp add: browserGap_def doc12gap_def browser_def doc12_def deck_def scan_def
      convertPdfToImages_def pageLoop.simps digit_char_def)

section \<open>Basic facts about the handlers\<close>

lemma items_updateUnit: "items (updateUnit x f prev) = map (\<lambda>i. if item_id i = x then f i else i) (items prev)"
  by (simp add: updateUnit_def)

lemma state_advance_files:
  "map file (items (state (advance r rn app))) = map file (items (state app))"
  by (simp add: advance_def dispatch_def Let_def items_updateUnit o_def)

lemma start_files:
  "map file (items (state (processBatchQueue_start cfg new app))) = map file (items (state app))"
  by (simp add: processBatchQueue_start_def Let_def state_advance_files)

lemma collectFiles_concat:
  "collectFiles env files acc =
     acc @ concat (map (\<lambda>f. if type f = ''application/pdf''
                             then (case convertPdfToImages env f of Inr images \<Rightarrow> images | Inl e \<Rightarrow> [f])
                             else [f]) files)"
  by (induction files arbitrary: acc) (auto split: sum.splits)

lemma newItems_files: "map file (newItems rand final) = final"
  by (simp add: newItems_def o_def split_def map_snd_enumerate cong: map_cong)

lemma length_newItems: "length (newItems rand final) = length final"
  by (simp add: newItems_def)

lemma nth_newItems:
  "j < length final \<Longrightarrow> newItems rand final ! j =
     \<lparr>item_id = generateId (rand (2 * j)) (rand (2 * j + 1)), file = final ! j, status = Pending,
       data = None, error = None\<rparr>"
  by (simp add: newItems_def nth_enumerate_eq)

lemma appendItems_nonempty:
  "new \<noteq> [] \<Longrightarrow> \<exists>st. appendItems new prev = Some st \<and> items st = items prev @ new"
  by (cases new) (simp_all add: appendItems_def)

lemmas app_defs =
  handleFilesSelect_def finalFiles_def newItems_def appendItems_def processBatchQueue_start_def
  processBatchQueue_resume_def advance_def dispatch_def settleItem_def updateUnit_def
  generateId_def substring_def init_def Let_def generateStockMetadata_def

lemma appDone_reachable:
  "run generateStockMetadata [FilesSelect noLibrary rand0 [photo], GenSettled 0 (ApiText d0)] init = Some appDone"
  by (simp add: app_defs appDone_def unitDone_def config0_def photo_def rand0_def)

section \<open>Input normalisation and unit creation\<close>

text \<open>
  The inputs of a selection are, file by file and in order: the file itself when it is not
  a PDF; the original PDF file, unmodified and alone, when \<open>convertPdfToImages\<close> throws
  (the \<^verbatim>\<open>catch\<close> of lines 98-102, \<^emph>\<open>fallback to original file if conversion fails\<close>); the
  page images when it returns. So every selected file that is not a PDF, or is a PDF whose
  decomposition throws, is among the inputs, the selection does not end in an error, and
  a unit for that file is in the queue afterwards.
\<close>

lemma handleFilesSelect_inputs:
  "finalFiles env files =
     concat (map (\<lambda>f. if type f = ''application/pdf''
                       then (case convertPdfToImages env f of Inr images \<Rightarrow> images | Inl e \<Rightarrow> [f])
                       else [f]) files)
   \<and> (\<forall>f \<in> set files.
        type f \<noteq> ''application/pdf'' \<or> (\<exists>e. convertPdfToImages env f = Inl e) \<longrightarrow>
        f \<in> set (finalFiles env files)
        \<and> (\<exists>app'. handleFilesSelect env rand files app = Some app'
              \<and> (\<exists>i \<in> set (items (state app')). file i = f)))"
proof (intro conjI ballI impI)
  show eq: "finalFiles env files =
     concat (map (\<lambda>f. if type f = ''application/pdf''
                       then (case convertPdfToImages env f of Inr images \<Rightarrow> images | Inl e \<Rightarrow> [f])
                       else [f]) files)"
    by (simp add: finalFiles_def collectFiles_concat)
  fix f assume f: "f \<in> set files"
    and pass: "type f \<noteq> ''application/pdf'' \<or> (\<exists>e. convertPdfToImages env f = Inl e)"
  from f pass show mem: "f \<in> set (finalFiles env files)"
    unfolding eq by (auto split: sum.splits)
  let ?new = "newItems rand (finalFiles env files)"
  from mem have "finalFiles env files \<noteq> []" by auto
  then have "?new \<noteq> []" using length_newItems [of rand "finalFiles env files"] by auto
  from appendItems_nonempty [OF this]
  obtain st where st: "appendItems ?new (state app) = Some st"
    and its: "items st = items (state app) @ ?new"
    by blast
  let ?app' = "processBatchQueue_start (promptConfig app) ?new (app\<lparr>state := st\<rparr>)"
  have res: "handleFilesSelect env rand files app = Some ?app'"
    using st by (simp add: handleFilesSelect_def Let_def)
  have "map file (items (state ?app')) = map file (items (state app)) @ finalFiles env files"
    using its by (simp add: start_files newItems_files)
  with mem have "f \<in> set (map file (items (state ?app')))" by simp
  then have "\<exists>i \<in> set (items (state ?app')). file i = f" by auto
  with res show "\<exists>app'. handleFilesSelect env rand files app = Some app'
              \<and> (\<exists>i \<in> set (items (state app')). file i = f)" by blast
qed

lemma handleFilesSelect_inputs_example:
  "deck \<in> set [photo, deck] \<and> (\<exists>e. convertPdfToImages noLibrary deck = Inl e)
   \<and> finalFiles noLibrary [photo, deck] = [photo, deck]
   \<and> (\<exists>app'. handleFilesSelect noLibrary rand0 [photo, deck] init = Some app'
         \<and> (\<exists>i \<in> set (items (state app')). file i = deck))"
  using handleFilesSelect_inputs [of noLibrary "[photo, deck]" rand0 init]
  by (simp add: convertPdfToImages_def noLibrary_def photo_def deck_def)

text \<open>
  C8 does not hold of the code, and the code misses what it sets out to do. A PDF whose
  only page gives no blob is decomposed without an error into no image at all: nothing
  is thrown, so the fallback to the original file is not taken, and no input stands for
  this supported file. Selected with an empty queue, the updater of line 122 reads
  \<^verbatim>\<open>newItems[0].id\<close> of an empty array and the selection ends in a TypeError; selected
  after a unit is active, the selection ends normally and the queue is what it was: the
  file is dropped without a trace.
\<close>

theorem handleFilesSelect_drops_pdf:
  "type deck = ''application/pdf'' \<and> convertPdfToImages blankPage deck = Inr []
   \<and> finalFiles blankPage [deck] = []
   \<and> handleFilesSelect blankPage rand0 [deck] init = None
   \<and> map_option (\<lambda>app'. (map (\<lambda>i. name (file i)) (items (state app')), length (calls app')))
        (handleFilesSelect blankPage rand0 [deck] appDone)
       = Some (map (\<lambda>i. name (file i)) (items (state appDone)), length (calls appDone))
   \<and> map (\<lambda>i. name (file i)) (items (state appDone)) = [''a.jpg'']"
  by (simp add: deck_def blankPage_def convertPdfToImages_def pageLoop.simps finalFiles_def
      handleFilesSelect_def newItems_def appendItems_def init_def appDone_def unitDone_def
      photo_def processBatchQueue_start_def advance_def dispatch_def Let_def updateUnit_def)

text \<open>
  C10, as the code has it. Unit creation gives one unit per input, in order, each
  \<^verbatim>\<open>pending\<close> with null result and null error message; the id of the unit at index \<open>j\<close> is
  \<open>generateId\<close> of the random strings \<open>2 * j\<close> and \<open>2 * j + 1\<close>, so the ids of one call are
  pairwise distinct exactly when these values are. Nothing compares an id with another.
\<close>

theorem newItems_amended:
  "length (newItems rand final) = length final
   \<and> (\<forall>j < length final. newItems rand final ! j =
        \<lparr>item_id = generateId (rand (2 * j)) (rand (2 * j + 1)), file = final ! j, status = Pending,
          data = None, error = None\<rparr>)
   \<and> (distinct (map item_id (newItems rand final)) \<longleftrightarrow>
        distinct (map (\<lambda>j. generateId (rand (2 * j)) (rand (2 * j + 1))) [0..<length final]))"
proof -
  have "map item_id (newItems rand final) = map (\<lambda>j. generateId (rand (2 * j)) (rand (2 * j + 1))) [0..<length final]"
    by (rule nth_equalityI) (simp_all add: length_newItems nth_newItems)
  then show ?thesis by (simp add: length_newItems nth_newItems)
qed

theorem newItems_amended_witness:
  "length (newItems rand0 [photo]) = 1
   \<and> (0::nat) < length [photo]
   \<and> newItems rand0 [photo] ! 0 = \<lparr>item_id = ''abc'', file = photo, status = Pending, data = None, error = None\<rparr>"
  using newItems_amended [of rand0 "[photo]"]
  by (simp add: rand0_def generateId_def substring_def)

text \<open>
  C10 as stated fails: four pairwise different random strings give two units of one call
  the same id.
\<close>

theorem generateId_collision_counterexample:
  "rand0 0 \<noteq> rand0 2 \<and> rand0 1 \<noteq> rand0 3
   \<and> map item_id (newItems rand0 [photo, deck]) = [''abc'', ''abc'']
   \<and> \<not> distinct (map item_id (newItems rand0 [photo, deck]))"
  by (simp add: newItems_def rand0_def generateId_def substring_def)

section \<open>Refinement\<close>

lemma refineMetadata_fails:
  "refineMetadata response d instr cfg = Inl err \<Longrightarrow> refineMetadata response d' instr' cfg' = Inl err"
  by (cases response) (simp_all add: refineMetadata_def)

lemma handleRefineItem_call_pending:
  "find (\<lambda>i. item_id i = x) (items (state app)) = Some item \<Longrightarrow> data item = Some d \<Longrightarrow>
   handleRefineItem_call x instr ratio app =
     (app\<lparr>isRefining := True,
          refinements := refinements app @
            [\<lparr>target = x, currentData = d, instruction = instr,
              refineConfig = (promptConfig app)\<lparr>aspectRatio := ratio\<rparr>, newAspectRatio = ratio\<rparr>]\<rparr>,
      None)"
  by (simp add: handleRefineItem_call_def)

text \<open>
  C5, as the code has it. When the refinement call for a completed unit fails, the call
  leaves the component as it was (the refining flag is down again), so the unit's result
  and status are what they were, and the promise of \<^verbatim>\<open>handleRefineItem\<close> resolves: the
  failure is not passed to the caller. The same holds when the failing response arrives
  later, in any state: state and configuration are unchanged.
\<close>

theorem handleRefineItem_failure_amended:
  assumes unit: "find (\<lambda>i. item_id i = x) (items (state app)) = Some item"
    and fin: "status item = Completed" "data item = Some d"
    and fails: "refineMetadata response d instr ((promptConfig app)\<lparr>aspectRatio := ratio\<rparr>) = Inl err"
  shows "handleRefineItem response x instr ratio app = (app\<lparr>isRefining := False\<rparr>, Inr ())
    \<and> find (\<lambda>i. item_id i = x) (items (state (fst (handleRefineItem response x instr ratio app)))) = Some item
    \<and> (\<forall>k (app2::App). k < length (refinements app2) \<and> currentData (refinements app2 ! k) = d \<longrightarrow>
          state (fst (handleRefineItem_settle k response app2)) = state app2
          \<and> promptConfig (fst (handleRefineItem_settle k response app2)) = promptConfig app2
          \<and> snd (handleRefineItem_settle k response app2) = Inr ())"
proof (intro conjI allI impI)
  let ?q = "\<lparr>target = x, currentData = d, instruction = instr,
              refineConfig = (promptConfig app)\<lparr>aspectRatio := ratio\<rparr>, newAspectRatio = ratio\<rparr>"
  show whole: "handleRefineItem response x instr ratio app = (app\<lparr>isRefining := False\<rparr>, Inr ())"
    using fails
    by (simp add: handleRefineItem_def handleRefineItem_call_pending [OF unit fin(2)]
        handleRefineItem_settle_def Let_def)
  show "find (\<lambda>i. item_id i = x) (items (state (fst (handleRefineItem response x instr ratio app)))) = Some item"
    using unit by (simp add: whole)
next
  fix k and app2 :: App
  assume k: "k < length (refinements app2) \<and> currentData (refinements app2 ! k) = d"
  have f: "refineMetadata response (currentData (refinements app2 ! k)) (instruction (refinements app2 ! k))
      (refineConfig (refinements app2 ! k)) = Inl err"
    by (rule refineMetadata_fails [OF fails])
  show "state (fst (handleRefineItem_settle k response app2)) = state app2"
    using k f by (simp add: handleRefineItem_settle_def Let_def)
  show "promptConfig (fst (handleRefineItem_settle k response app2)) = promptConfig app2"
    using k f by (simp add: handleRefineItem_settle_def Let_def)
  show "snd (handleRefineItem_settle k response app2) = Inr ()"
    using k f by (simp add: handleRefineItem_settle_def Let_def)
qed

theorem handleRefineItem_failure_amended_witness:
  "find (\<lambda>i. item_id i = ''abc'') (items (state appDone)) = Some unitDone
   \<and> status unitDone = Completed
   \<and> refineMetadata ApiNoText (d0\<lparr>used_model := Some midjourney\<rparr>) ''warmer light'' (config0\<lparr>aspectRatio := ''1:1''\<rparr>)
       = Inl (JsError (Some ''Gagal melakukan refine prompt.''))
   \<and> handleRefineItem ApiNoText ''abc'' ''warmer light'' ''1:1'' appDone = (appDone, Inr ())"
proof -
  have u: "find (\<lambda>i. item_id i = ''abc'') (items (state appDone)) = Some unitDone"
    and s: "status unitDone = Completed"
    and d: "data unitDone = Some (d0\<lparr>used_model := Some midjourney\<rparr>)"
    and f: "refineMetadata ApiNoText (d0\<lparr>used_model := Some midjourney\<rparr>) ''warmer light''
       ((promptConfig appDone)\<lparr>aspectRatio := ''1:1''\<rparr>) = Inl (JsError (Some ''Gagal melakukan refine prompt.''))"
    by (simp_all add: appDone_def unitDone_def refineMetadata_def)
  from handleRefineItem_failure_amended [OF u s d f]
  have "handleRefineItem ApiNoText ''abc'' ''warmer light'' ''1:1'' appDone = (appDone\<lparr>isRefining := False\<rparr>, Inr ())"
    by blast
  moreover have "appDone\<lparr>isRefining := False\<rparr> = appDone" by (simp add: appDone_def)
  moreover have "promptConfig appDone = config0" by (simp add: appDone_def)
  ultimately show ?thesis using u s f by simp
qed

text \<open>
  C5 as stated fails in its last part: after a failed refinement of a completed unit of a
  session, the caller holds a resolved promise and the component is exactly as before
  the call; nothing reports the failure to the caller.
\<close>

theorem handleRefineItem_failure_counterexample:
  "run generateStockMetadata [FilesSelect noLibrary rand0 [photo], GenSettled 0 (ApiText d0)] init = Some appDone
   \<and> handleRefineItem ApiThrows ''abc'' ''warmer light'' ''1:1'' appDone = (appDone, Inr ())"
proof (intro conjI)
  show "run generateStockMetadata [FilesSelect noLibrary rand0 [photo], GenSettled 0 (ApiText d0)] init = Some appDone"
    by (rule appDone_reachable)
  show "handleRefineItem ApiThrows ''abc'' ''warmer light'' ''1:1'' appDone = (appDone, Inr ())"
    by (simp add: handleRefineItem_def handleRefineItem_call_def handleRefineItem_settle_def
        refineMetadata_def appDone_def unitDone_def)
qed

text \<open>
  C6. When the refinement call for a completed unit succeeds, the unit's result is
  replaced by the returned metadata tagged with the \<^verbatim>\<open>targetModel\<close> of the configuration the
  call was made under, every unit with another id is untouched, and the shared
  configuration has its \<^verbatim>\<open>aspectRatio\<close> set to the \<^verbatim>\<open>newAspectRatio\<close> of the call.
\<close>

theorem handleRefineItem_success:
  assumes unit: "find (\<lambda>i. item_id i = x) (items (state app)) = Some item"
    and fin: "status item = Completed" "data item = Some d"
    and ok: "refineMetadata response d instr ((promptConfig app)\<lparr>aspectRatio := ratio\<rparr>) = Inr refined"
  shows "(\<exists>metadata. response = ApiText metadata \<and> refined = metadata\<lparr>used_model := Some (targetModel (promptConfig app))\<rparr>)
    \<and> items (state (fst (handleRefineItem response x instr ratio app))) =
        map (\<lambda>i. if item_id i = x then i\<lparr>data := Some refined\<rparr> else i) (items (state app))
    \<and> find (\<lambda>i. item_id i = x) (items (state (fst (handleRefineItem response x instr ratio app))))
        = Some (item\<lparr>data := Some refined\<rparr>)
    \<and> promptConfig (fst (handleRefineItem response x instr ratio app)) = (promptConfig app)\<lparr>aspectRatio := ratio\<rparr>
    \<and> snd (handleRefineItem response x instr ratio app) = Inr ()"
proof -
  from ok obtain metadata where m: "response = ApiText metadata"
    "refined = metadata\<lparr>used_model := Some (targetModel (promptConfig app))\<rparr>"
    by (cases response) (auto simp: refineMetadata_def)
  have whole: "handleRefineItem response x instr ratio app =
      (app\<lparr>state := updateUnit x (\<lambda>i. i\<lparr>data := Some refined\<rparr>) (state app),
           promptConfig := (promptConfig app)\<lparr>aspectRatio := ratio\<rparr>,
           isRefining := False\<rparr>, Inr ())"
    using ok
    by (simp add: handleRefineItem_def handleRefineItem_call_pending [OF unit fin(2)]
        handleRefineItem_settle_def Let_def)
  have fnd: "find (\<lambda>i. item_id i = x) (map (\<lambda>i. if item_id i = x then i\<lparr>data := Some refined\<rparr> else i) xs)
      = map_option (\<lambda>i. i\<lparr>data := Some refined\<rparr>) (find (\<lambda>i. item_id i = x) xs)" for xs
    by (induction xs) auto
  have rest: "items (state (fst (handleRefineItem response x instr ratio app))) =
        map (\<lambda>i. if item_id i = x then i\<lparr>data := Some refined\<rparr> else i) (items (state app))
    \<and> find (\<lambda>i. item_id i = x) (items (state (fst (handleRefineItem response x instr ratio app))))
        = Some (item\<lparr>data := Some refined\<rparr>)
    \<and> promptConfig (fst (handleRefineItem response x instr ratio app)) = (promptConfig app)\<lparr>aspectRatio := ratio\<rparr>
    \<and> snd (handleRefineItem response x instr ratio app) = Inr ()"
    using unit by (simp add: whole items_updateUnit fnd)
  from m rest show ?thesis by blast
qed

theorem handleRefineItem_success_witness:
  "find (\<lambda>i. item_id i = ''abc'') (items (state appDone)) = Some unitDone
   \<and> status unitDone = Completed
   \<and> refineMetadata (ApiText d0) (d0\<lparr>used_model := Some midjourney\<rparr>) ''warmer light'' (config0\<lparr>aspectRatio := ''1:1''\<rparr>)
       = Inr (d0\<lparr>used_model := Some midjourney\<rparr>)
   \<and> aspectRatio (promptConfig (fst (handleRefineItem (ApiText d0) ''abc'' ''warmer light'' ''1:1'' appDone))) = ''1:1''"
proof -
  have u: "find (\<lambda>i. item_id i = ''abc'') (items (state appDone)) = Some unitDone"
    and s: "status unitDone = Completed"
    and d: "data unitDone = Some (d0\<lparr>used_model := Some midjourney\<rparr>)"
    and f: "refineMetadata (ApiText d0) (d0\<lparr>used_model := Some midjourney\<rparr>) ''warmer light''
       ((promptConfig appDone)\<lparr>aspectRatio := ''1:1''\<rparr>) = Inr (d0\<lparr>used_model := Some midjourney\<rparr>)"
    by (simp_all add: appDone_def unitDone_def refineMetadata_def config0_def)
  from handleRefineItem_success [OF u s d f]
  have "promptConfig (fst (handleRefineItem (ApiText d0) ''abc'' ''warmer light'' ''1:1'' appDone))
      = (promptConfig appDone)\<lparr>aspectRatio := ''1:1''\<rparr>"
    by blast
  moreover have "promptConfig appDone = config0" by (simp add: appDone_def)
  ultimately show ?thesis using u s f by simp
qed

section \<open>The session invariant\<close>

lemma items_updateUnit_upd: "items (updateUnit x f prev) = upd x f (items prev)"
  by (simp add: updateUnit_def upd_def)

lemma ids_upd: "(\<And>i. item_id (f i) = item_id i) \<Longrightarrow> map item_id (upd x f its) = map item_id its"
  by (induction its) (auto simp: upd_def)

lemma idset_upd: "(\<And>i. item_id (f i) = item_id i) \<Longrightarrow> item_id ` set (upd x f its) = item_id ` set its"
  by (induction its) (auto simp: upd_def)

lemma units_at_upd:
  "(\<And>i. item_id (f i) = item_id i) \<Longrightarrow>
   units_at y P (upd x f its) = (if y = x then units_at x (\<lambda>i. P (f i)) its else units_at y P its)"
  by (induction its) (auto simp: units_at_def upd_def)

lemma units_at_mono: "units_at x P its \<Longrightarrow> (\<And>i. P i \<Longrightarrow> Q i) \<Longrightarrow> units_at x Q its"
  by (auto simp: units_at_def)

lemma units_at_conj: "units_at x P its \<Longrightarrow> units_at x Q its \<Longrightarrow> units_at x (\<lambda>i. P i \<and> Q i) its"
  by (auto simp: units_at_def)

lemma units_at_absent: "x \<notin> item_id ` set its \<Longrightarrow> units_at x P its"
  by (auto simp: units_at_def)

lemma units_at_append: "units_at x P (its @ new) = (units_at x P its \<and> units_at x P new)"
  by (auto simp: units_at_def)

lemma units_at_all: "(\<forall>i \<in> set its. P i) \<Longrightarrow> units_at x P its"
  by (auto simp: units_at_def)

lemma all_units_at: "(\<forall>i \<in> set its. P i) = (\<forall>x. units_at x P its)"
  by (auto simp: units_at_def)

lemma units_at_distinct:
  "distinct (map item_id its) \<Longrightarrow> a \<in> set its \<Longrightarrow> P a \<Longrightarrow> units_at (item_id a) P its"
  by (induction its) (auto simp: units_at_def rev_image_eqI)

lemma all_ok_upd:
  "(\<And>i. item_id (f i) = item_id i) \<Longrightarrow> \<forall>i \<in> set its. unit_ok i \<Longrightarrow>
   units_at x (\<lambda>i. unit_ok (f i)) its \<Longrightarrow> \<forall>i \<in> set (upd x f its). unit_ok i"
  by (auto simp: units_at_def upd_def)

lemma runner_disjoint:
  assumes "\<forall>a b. a < b \<and> b < length rns \<longrightarrow> set (runner_ids (rns ! a)) \<inter> set (runner_ids (rns ! b)) = {}"
    and "a < length rns" "b < length rns" "a \<noteq> b"
  shows "set (runner_ids (rns ! a)) \<inter> set (runner_ids (rns ! b)) = {}"
proof (cases "a < b")
  case True with assms show ?thesis by blast
next
  case False
  with assms have "b < a" by simp
  with assms have "set (runner_ids (rns ! b)) \<inter> set (runner_ids (rns ! a)) = {}" by blast
  then show ?thesis by blast
qed

text \<open>One settled call of a runner, on the three lists.\<close>

lemma queue_inv_settle:
  assumes inv: "queue_inv I its rns qs"
    and r: "r < length rns" and p: "pos (rns ! r) < length (itemsToProcess (rns ! r))"
    and f: "(\<forall>i. f i = i\<lparr>status := Completed, data := Some result\<rparr>) \<or>
            (\<forall>i. f i = i\<lparr>status := Error, error := Some msg\<rparr>)"
    and its': "its' = (if Suc (pos (rns ! r)) < length (itemsToProcess (rns ! r))
          then upd (runner_ids (rns ! r) ! Suc (pos (rns ! r))) (\<lambda>i. i\<lparr>status := Processing\<rparr>)
                 (upd (runner_ids (rns ! r) ! pos (rns ! r)) f its)
          else upd (runner_ids (rns ! r) ! pos (rns ! r)) f its)"
  shows "queue_inv I its' (rns[r := (rns ! r)\<lparr>pos := Suc (pos (rns ! r))\<rparr>]) qs"
proof -
  define rn where "rn = rns ! r"
  define n where "n = length (itemsToProcess rn)"
  define ids where "ids = runner_ids rn"
  define x where "x = ids ! pos rn"
  define y where "y = ids ! Suc (pos rn)"
  define g where "g = (\<lambda>i::BatchItem. i\<lparr>status := Processing\<rparr>)"
  define rn' where "rn' = rn\<lparr>pos := Suc (pos rn)\<rparr>"
  have len_ids: "length ids = n" by (simp add: ids_def n_def runner_ids_def)
  have pn: "pos rn < n" using p by (simp add: rn_def n_def)
  have fid: "\<And>i. item_id (f i) = item_id i" using f by auto
  have gid: "\<And>i. item_id (g i) = item_id i" by (simp add: g_def)
  have fst: "\<And>i. status (f i) = Completed \<or> status (f i) = Error" using f by auto
  have rn_in: "rn \<in> set rns" using r by (simp add: rn_def)
  from inv have ok: "\<forall>i \<in> set its. unit_ok i" and dist: "distinct (map item_id its)"
    and sub: "item_id ` set its \<subseteq> I"
    and rok: "\<forall>rn \<in> set rns. runner_ok I its rn"
    and disj: "\<forall>a b. a < b \<and> b < length rns \<longrightarrow> set (runner_ids (rns ! a)) \<inter> set (runner_ids (rns ! b)) = {}"
    and qok: "\<forall>q \<in> set qs. refinement_ok I its q"
    by (simp_all add: queue_inv_def)
  from rok rn_in have rnok: "runner_ok I its rn" by blast
  then have dids: "distinct ids" and idsI: "set ids \<subseteq> I"
    and ph: "\<forall>j < n. units_at (ids ! j) (\<lambda>i. phase (pos rn) j (status i)) its"
    and pres: "set ids \<subseteq> item_id ` set its \<or> set ids \<inter> item_id ` set its = {}"
    by (simp_all add: runner_ok_def ids_def n_def)
  have its'_eq: "its' = (if Suc (pos rn) < n then upd y g (upd x f its) else upd x f its)"
    using its' by (simp add: rn_def n_def x_def y_def ids_def g_def)
  have xy: "Suc (pos rn) < n \<Longrightarrow> x \<noteq> y"
    using dids pn len_ids by (simp add: x_def y_def nth_eq_iff_index_eq)
  have idset: "item_id ` set its' = item_id ` set its"
    by (simp add: its'_eq idset_upd fid gid)
  have idlist: "map item_id its' = map item_id its"
    by (simp add: its'_eq ids_upd fid gid)
  \<comment> \<open>what holds at the two ids before the step\<close>
  have atx: "units_at x (\<lambda>i. status i = Processing \<and> unit_ok i) its"
  proof -
    from ph pn have "units_at x (\<lambda>i. phase (pos rn) (pos rn) (status i)) its" by (simp add: x_def)
    then have "units_at x (\<lambda>i. status i = Processing) its" by (simp add: phase_def)
    moreover have "units_at x unit_ok its" using ok by (rule units_at_all)
    ultimately show ?thesis by (rule units_at_conj)
  qed
  have aty: "Suc (pos rn) < n \<Longrightarrow> units_at y (\<lambda>i. status i = Pending \<and> unit_ok i) its"
  proof -
    assume s: "Suc (pos rn) < n"
    with ph have "units_at y (\<lambda>i. phase (pos rn) (Suc (pos rn)) (status i)) its" by (simp add: y_def)
    then have "units_at y (\<lambda>i. status i = Pending) its" by (simp add: phase_def)
    moreover have "units_at y unit_ok its" using ok by (rule units_at_all)
    ultimately show ?thesis by (rule units_at_conj)
  qed
  \<comment> \<open>a property of the statuses at an id that is neither x nor y is kept\<close>
  have other: "\<And>z P. z \<noteq> x \<Longrightarrow> (Suc (pos rn) < n \<Longrightarrow> z \<noteq> y) \<Longrightarrow> units_at z P its' = units_at z P its"
    by (simp add: its'_eq units_at_upd fid gid)
  have ok': "\<forall>i \<in> set its'. unit_ok i"
  proof -
    have "units_at x (\<lambda>i. unit_ok (f i)) its"
      using atx f by (auto simp: units_at_def unit_ok_def)
    then have 1: "\<forall>i \<in> set (upd x f its). unit_ok i" by (rule all_ok_upd [OF fid ok])
    show ?thesis
    proof (cases "Suc (pos rn) < n")
      case False with 1 show ?thesis by (simp add: its'_eq)
    next
      case True
      from aty [OF True] have "units_at y (\<lambda>i. unit_ok (g i)) its"
        by (auto simp: units_at_def unit_ok_def g_def)
      then have "units_at y (\<lambda>i. unit_ok (g i)) (upd x f its)"
        using xy [OF True] by (simp add: units_at_upd fid)
      then have "\<forall>i \<in> set (upd y g (upd x f its)). unit_ok i" by (rule all_ok_upd [OF gid 1])
      with True show ?thesis by (simp add: its'_eq)
    qed
  qed
  have rn'ok: "runner_ok I its' rn'"
  proof -
    have "\<forall>j < n. units_at (ids ! j) (\<lambda>i. phase (Suc (pos rn)) j (status i)) its'"
    proof (intro allI impI)
      fix j assume j: "j < n"
      consider "j = pos rn" | "j = Suc (pos rn)" | "j \<noteq> pos rn" "j \<noteq> Suc (pos rn)" by blast
      then show "units_at (ids ! j) (\<lambda>i. phase (Suc (pos rn)) j (status i)) its'"
      proof cases
        case 1
        have "units_at x (\<lambda>i. phase (Suc (pos rn)) (pos rn) (status (f i))) its"
          using fst by (auto simp: units_at_def phase_def)
        then show ?thesis using 1 xy
          by (auto simp: its'_eq units_at_upd fid gid x_def [symmetric])
      next
        case 2
        with j have s: "Suc (pos rn) < n" by simp
        have "units_at y (\<lambda>i. phase (Suc (pos rn)) (Suc (pos rn)) (status (g i))) (upd x f its)"
          by (auto simp: units_at_def phase_def g_def)
        then show ?thesis using 2 s
          by (simp add: its'_eq units_at_upd fid gid y_def [symmetric])
      next
        case 3
        have zx: "ids ! j \<noteq> x" using dids j pn len_ids 3 by (simp add: x_def nth_eq_iff_index_eq)
        have zy: "Suc (pos rn) < n \<Longrightarrow> ids ! j \<noteq> y"
          using dids j len_ids 3 by (simp add: y_def nth_eq_iff_index_eq)
        from ph j have "units_at (ids ! j) (\<lambda>i. phase (pos rn) j (status i)) its" by blast
        moreover have "\<And>st. phase (pos rn) j st = phase (Suc (pos rn)) j st"
          using 3 by (auto simp: phase_def)
        ultimately show ?thesis using other [OF zx zy] by simp
      qed
    qed
    moreover have "runner_ids rn' = ids" "itemsToProcess rn' = itemsToProcess rn" "pos rn' = Suc (pos rn)"
      by (simp_all add: rn'_def ids_def runner_ids_def)
    ultimately show ?thesis
      using dids idsI pn pres by (simp add: runner_ok_def idset n_def)
  qed
  have ids': "runner_ids ((rns[r := rn']) ! a) = runner_ids (rns ! a)" if "a < length rns" for a
    using that by (cases "a = r") (simp_all add: rn'_def rn_def runner_ids_def)
  have others: "runner_ok I its' (rns ! b)" if b: "b < length rns" "b \<noteq> r" for b
  proof -
    from rok b have bok: "runner_ok I its (rns ! b)" by simp
    from runner_disjoint [OF disj b(1) r b(2)]
    have d: "set (runner_ids (rns ! b)) \<inter> set ids = {}" by (simp add: ids_def rn_def)
    have "units_at (runner_ids (rns ! b) ! j) P its' = units_at (runner_ids (rns ! b) ! j) P its"
      if j: "j < length (itemsToProcess (rns ! b))" for j P
    proof -
      from j have m: "runner_ids (rns ! b) ! j \<in> set (runner_ids (rns ! b))"
        by (simp add: runner_ids_def)
      have "x \<in> set ids" using pn len_ids by (simp add: x_def)
      with m d have zx: "runner_ids (rns ! b) ! j \<noteq> x" by blast
      have zy: "Suc (pos rn) < n \<Longrightarrow> runner_ids (rns ! b) ! j \<noteq> y"
      proof -
        assume "Suc (pos rn) < n"
        then have "y \<in> set ids" using len_ids by (simp add: y_def)
        with m d show ?thesis by blast
      qed
      from other [OF zx zy] show ?thesis .
    qed
    with bok show ?thesis by (simp add: runner_ok_def idset)
  qed
  have rok': "\<forall>rn2 \<in> set (rns[r := rn']). runner_ok I its' rn2"
  proof
    fix rn2 assume "rn2 \<in> set (rns[r := rn'])"
    then obtain b where b: "b < length rns" "rn2 = (rns[r := rn']) ! b"
      by (auto simp: in_set_conv_nth)
    show "runner_ok I its' rn2"
    proof (cases "b = r")
      case True with b rn'ok show ?thesis by simp
    next
      case False with b others show ?thesis by simp
    qed
  qed
  have disj': "\<forall>a b. a < b \<and> b < length (rns[r := rn']) \<longrightarrow>
      set (runner_ids ((rns[r := rn']) ! a)) \<inter> set (runner_ids ((rns[r := rn']) ! b)) = {}"
    using disj ids' by simp
  have qok': "\<forall>q \<in> set qs. refinement_ok I its' q"
  proof
    fix q assume q: "q \<in> set qs"
    with qok have t: "target q \<in> I" and c: "units_at (target q) (\<lambda>i. status i = Completed) its"
      by (simp_all add: refinement_ok_def)
    have "units_at (target q) (\<lambda>i. status i = Completed) its'"
    proof -
      consider "target q = x" | "target q = y" "Suc (pos rn) < n" "target q \<noteq> x"
        | "target q \<noteq> x" "Suc (pos rn) < n \<Longrightarrow> target q \<noteq> y" by blast
      then show ?thesis
      proof cases
        case 1
        from units_at_conj [OF atx c [unfolded 1]]
        have "units_at x (\<lambda>i. status (f i) = Completed) its" by (auto simp: units_at_def)
        then show ?thesis using 1 xy by (auto simp: its'_eq units_at_upd fid gid)
      next
        case 2
        from units_at_conj [OF aty [OF 2(2)] c [unfolded 2(1)]]
        have "units_at y (\<lambda>i. status (g i) = Completed) its" by (auto simp: units_at_def)
        then show ?thesis using 2 by (auto simp: its'_eq units_at_upd fid gid)
      next
        case 3
        from other [OF 3] c show ?thesis by simp
      qed
    qed
    with t show "refinement_ok I its' q" by (simp add: refinement_ok_def)
  qed
  from ok' dist sub rok' disj' qok' show ?thesis
    by (simp add: queue_inv_def idlist idset rn'_def rn_def)
qed

lemma units_at_upd_status:
  "(\<And>i. item_id (f i) = item_id i) \<Longrightarrow> (\<And>i. status (f i) = status i) \<Longrightarrow>
   units_at z (\<lambda>i. P (status i)) (upd x f its) = units_at z (\<lambda>i. P (status i)) its"
  by (simp add: units_at_upd)

lemma queue_inv_data:
  assumes inv: "queue_inv I its rns qs"
    and f: "\<forall>i. f i = i\<lparr>data := Some d\<rparr>"
    and c: "units_at x (\<lambda>i. status i = Completed) its"
  shows "queue_inv I (upd x f its) rns qs"
proof -
  have fid: "\<And>i. item_id (f i) = item_id i" and fst: "\<And>i. status (f i) = status i"
    using f by simp_all
  from inv have ok: "\<forall>i \<in> set its. unit_ok i" and dist: "distinct (map item_id its)"
    and sub: "item_id ` set its \<subseteq> I"
    and rok: "\<forall>rn \<in> set rns. runner_ok I its rn"
    and disj: "\<forall>a b. a < b \<and> b < length rns \<longrightarrow> set (runner_ids (rns ! a)) \<inter> set (runner_ids (rns ! b)) = {}"
    and qok: "\<forall>q \<in> set qs. refinement_ok I its q"
    by (simp_all add: queue_inv_def)
  have "units_at x (\<lambda>i. unit_ok (f i)) its"
    using c ok f by (auto simp: units_at_def unit_ok_def)
  then have ok': "\<forall>i \<in> set (upd x f its). unit_ok i" by (rule all_ok_upd [OF fid ok])
  have rok': "\<forall>rn \<in> set rns. runner_ok I (upd x f its) rn"
    using rok by (simp add: runner_ok_def idset_upd [OF fid] units_at_upd_status [OF fid fst])
  have qok': "\<forall>q \<in> set qs. refinement_ok I (upd x f its) q"
    using qok units_at_upd_status [OF fid fst, of _ "\<lambda>s. s = Completed"]
    by (simp add: refinement_ok_def)
  from ok' dist sub rok' disj qok' show ?thesis
    by (simp add: queue_inv_def ids_upd [OF fid] idset_upd [OF fid])
qed

lemma queue_inv_clear: "queue_inv I its rns qs \<Longrightarrow> queue_inv I [] rns qs"
  by (simp add: queue_inv_def runner_ok_def refinement_ok_def units_at_def)

lemma queue_inv_refinements:
  "queue_inv I its rns qs \<Longrightarrow> set qs' \<subseteq> set qs \<Longrightarrow> queue_inv I its rns qs'"
  by (auto simp: queue_inv_def)

lemma queue_inv_request:
  assumes inv: "queue_inv I its rns qs"
    and fnd: "find (\<lambda>i. item_id i = x) its = Some item" and d: "data item \<noteq> None"
    and t: "target q = x"
  shows "queue_inv I its rns (qs @ [q])"
proof -
  from fnd have m: "item \<in> set its" and xi: "item_id item = x"
    by (auto simp: find_Some_iff)
  from inv have ok: "\<forall>i \<in> set its. unit_ok i" and dist: "distinct (map item_id its)"
    and sub: "item_id ` set its \<subseteq> I"
    by (simp_all add: queue_inv_def)
  from ok m d have "status item = Completed" by (auto simp: unit_ok_def)
  from units_at_distinct [OF dist m, of "\<lambda>i. status i = Completed", OF this]
  have "units_at x (\<lambda>i. status i = Completed) its" by (simp add: xi)
  moreover have "x \<in> I" using m xi sub by auto
  ultimately have "refinement_ok I its q" by (simp add: refinement_ok_def t)
  with inv show ?thesis by (simp add: queue_inv_def)
qed

lemma runner_ok_admit:
  assumes rnok: "runner_ok I its rn"
    and sub: "item_id ` set its \<subseteq> I"
    and fresh: "set (map item_id new) \<inter> I = {}"
    and its': "its' = its @ new \<or> its' = upd x g (its @ new)"
    and x: "x \<notin> I" and gid: "\<And>i. item_id (g i) = item_id i"
  shows "runner_ok (I \<union> set (map item_id new)) its' rn"
proof -
  from rnok have dids: "distinct (runner_ids rn)" and idsI: "set (runner_ids rn) \<subseteq> I"
    and pn: "pos rn \<le> length (itemsToProcess rn)"
    and ph: "\<forall>j < length (itemsToProcess rn). units_at (runner_ids rn ! j) (\<lambda>i. phase (pos rn) j (status i)) its"
    and pres: "set (runner_ids rn) \<subseteq> item_id ` set its \<or> set (runner_ids rn) \<inter> item_id ` set its = {}"
    by (simp_all add: runner_ok_def)
  have idset: "item_id ` set its' = item_id ` set its \<union> set (map item_id new)"
  proof -
    have "item_id ` set its' = item_id ` set (its @ new)"
      using its' idset_upd [OF gid, of x "its @ new"] by auto
    then show ?thesis by auto
  qed
  have keep: "units_at z P its' = units_at z P its" if z: "z \<in> I" for z P
  proof -
    from z fresh have "z \<notin> item_id ` set new" by auto
    then have n: "units_at z P new" by (rule units_at_absent)
    from z x have "z \<noteq> x" by blast
    with its' n show ?thesis by (auto simp: units_at_upd [OF gid] units_at_append)
  qed
  have ph': "\<forall>j < length (itemsToProcess rn). units_at (runner_ids rn ! j) (\<lambda>i. phase (pos rn) j (status i)) its'"
  proof (intro allI impI)
    fix j assume j: "j < length (itemsToProcess rn)"
    then have "runner_ids rn ! j \<in> set (runner_ids rn)" by (simp add: runner_ids_def)
    with idsI have "runner_ids rn ! j \<in> I" by blast
    from keep [OF this] ph j
    show "units_at (runner_ids rn ! j) (\<lambda>i. phase (pos rn) j (status i)) its'" by simp
  qed
  have pres': "set (runner_ids rn) \<subseteq> item_id ` set its' \<or> set (runner_ids rn) \<inter> item_id ` set its' = {}"
    using pres idsI fresh unfolding idset by blast
  from dids idsI pn ph' pres' show ?thesis by (auto simp: runner_ok_def)
qed

lemma queue_inv_admit:
  assumes inv: "queue_inv I its rns qs"
    and new: "\<forall>i \<in> set new. status i = Pending \<and> data i = None \<and> error i = None"
    and dnew: "distinct (map item_id new)"
    and fresh: "set (map item_id new) \<inter> I = {}"
    and its': "its' = (if new = [] then its @ new
                       else upd (item_id (new ! 0)) (\<lambda>i. i\<lparr>status := Processing\<rparr>) (its @ new))"
    and rn0: "itemsToProcess rn0 = new" "pos rn0 = 0"
  shows "queue_inv (I \<union> set (map item_id new)) its' (rns @ [rn0]) qs"
proof -
  define g where "g = (\<lambda>i::BatchItem. i\<lparr>status := Processing\<rparr>)"
  define x where "x = item_id (new ! 0)"
  define J where "J = I \<union> set (map item_id new)"
  have gid: "\<And>i. item_id (g i) = item_id i" by (simp add: g_def)
  from inv have ok: "\<forall>i \<in> set its. unit_ok i" and dist: "distinct (map item_id its)"
    and sub: "item_id ` set its \<subseteq> I"
    and rok: "\<forall>rn \<in> set rns. runner_ok I its rn"
    and disj: "\<forall>a b. a < b \<and> b < length rns \<longrightarrow> set (runner_ids (rns ! a)) \<inter> set (runner_ids (rns ! b)) = {}"
    and qok: "\<forall>q \<in> set qs. refinement_ok I its q"
    by (simp_all add: queue_inv_def)
  have its'_eq: "its' = (if new = [] then its @ new else upd x g (its @ new))"
    using its' by (simp add: g_def x_def)
  have alt: "its' = its @ new \<or> its' = upd x g (its @ new)" using its'_eq by auto
  have xnew: "new \<noteq> [] \<Longrightarrow> x \<in> set (map item_id new)" by (cases new) (simp_all add: x_def)
  have xI: "new \<noteq> [] \<Longrightarrow> x \<notin> I" using xnew fresh by blast
  have idlist: "map item_id its' = map item_id its @ map item_id new"
    by (simp add: its'_eq ids_upd [OF gid])
  have idset: "item_id ` set its' = item_id ` set its \<union> set (map item_id new)"
  proof -
    have "set (map item_id its') = set (map item_id its @ map item_id new)" by (simp only: idlist)
    then show ?thesis by simp
  qed
  have dist': "distinct (map item_id its')"
    using dist dnew sub fresh unfolding idlist by auto
  have okapp: "\<forall>i \<in> set (its @ new). unit_ok i"
    using ok new by (auto simp: unit_ok_def)
  have ok': "\<forall>i \<in> set its'. unit_ok i"
  proof (cases "new = []")
    case True with okapp show ?thesis by (simp add: its'_eq)
  next
    case False
    have "x \<notin> item_id ` set its" using xI [OF False] sub by blast
    then have "units_at x (\<lambda>i. unit_ok (g i)) its" by (rule units_at_absent)
    moreover have "units_at x (\<lambda>i. unit_ok (g i)) new"
      using new by (auto simp: units_at_def unit_ok_def g_def)
    ultimately have "units_at x (\<lambda>i. unit_ok (g i)) (its @ new)" by (simp add: units_at_append)
    then have "\<forall>i \<in> set (upd x g (its @ new)). unit_ok i" by (rule all_ok_upd [OF gid okapp])
    with False show ?thesis by (simp add: its'_eq)
  qed
  have old: "runner_ok J its' rn" if "rn \<in> set rns" for rn
  proof (cases "new = []")
    case True
    with rok that show ?thesis by (simp add: its'_eq J_def)
  next
    case False
    from rok that have "runner_ok I its rn" by blast
    from runner_ok_admit [OF this sub fresh alt xI [OF False] gid]
    show ?thesis by (simp add: J_def)
  qed
  have rn0ok: "runner_ok J its' rn0"
  proof -
    have ids0: "runner_ids rn0 = map item_id new" by (simp add: runner_ids_def rn0)
    have "units_at (map item_id new ! j) (\<lambda>i. phase 0 j (status i)) its'" if j: "j < length new" for j
    proof -
      from j have ne: "new \<noteq> []" by auto
      show ?thesis
      proof (cases "j = 0")
        case True
        have "units_at x (\<lambda>i. phase 0 0 (status (g i))) (its @ new)"
          by (auto simp: units_at_def phase_def g_def)
        with True ne j show ?thesis by (simp add: its'_eq units_at_upd [OF gid] x_def)
      next
        case False
        let ?z = "map item_id new ! j"
        have x0: "x = map item_id new ! 0" using ne by (simp add: x_def)
        have "(?z = map item_id new ! 0) = (j = 0)"
          using j ne by (intro nth_eq_iff_index_eq [OF dnew]) simp_all
        with False x0 have zx: "?z \<noteq> x" by (simp only:) simp
        have "j < length (map item_id new)" using j by simp
        then have "?z \<in> set (map item_id new)" by (rule nth_mem)
        with fresh sub have "?z \<notin> item_id ` set its" by blast
        then have a: "units_at ?z (\<lambda>i. phase 0 j (status i)) its" by (rule units_at_absent)
        have b: "units_at ?z (\<lambda>i. phase 0 j (status i)) new"
          using new False by (auto simp: units_at_def phase_def)
        from a b zx ne show ?thesis by (simp add: its'_eq units_at_upd [OF gid] units_at_append)
      qed
    qed
    then have ph0: "\<forall>j < length (itemsToProcess rn0).
        units_at (runner_ids rn0 ! j) (\<lambda>i. phase (pos rn0) j (status i)) its'"
      by (simp only: ids0 rn0) simp
    have "set (runner_ids rn0) \<subseteq> J" by (simp only: ids0 J_def) blast
    moreover have "set (runner_ids rn0) \<subseteq> item_id ` set its'" by (simp only: ids0 idset) blast
    moreover have "distinct (runner_ids rn0)" using dnew by (simp only: ids0)
    moreover have "pos rn0 \<le> length (itemsToProcess rn0)" by (simp add: rn0)
    ultimately show ?thesis using ph0 unfolding runner_ok_def by blast
  qed
  have rok': "\<forall>rn \<in> set (rns @ [rn0]). runner_ok J its' rn"
    using old rn0ok by auto
  have disj': "\<forall>a b. a < b \<and> b < length (rns @ [rn0]) \<longrightarrow>
      set (runner_ids ((rns @ [rn0]) ! a)) \<inter> set (runner_ids ((rns @ [rn0]) ! b)) = {}"
  proof (intro allI impI)
    fix a b assume ab: "a < b \<and> b < length (rns @ [rn0])"
    show "set (runner_ids ((rns @ [rn0]) ! a)) \<inter> set (runner_ids ((rns @ [rn0]) ! b)) = {}"
    proof (cases "b < length rns")
      case True
      with ab disj show ?thesis by (simp add: nth_append)
    next
      case False
      with ab have b: "b = length rns" and a: "a < length rns" by simp_all
      from rok a have "set (runner_ids (rns ! a)) \<subseteq> I" by (simp add: runner_ok_def)
      moreover have "runner_ids rn0 = map item_id new" by (simp add: runner_ids_def rn0)
      ultimately show ?thesis using fresh a b by (auto simp: nth_append)
    qed
  qed
  have qok': "\<forall>q \<in> set qs. refinement_ok J its' q"
  proof
    fix q assume "q \<in> set qs"
    with qok have t: "target q \<in> I" and c: "units_at (target q) (\<lambda>i. status i = Completed) its"
      by (simp_all add: refinement_ok_def)
    from t fresh have "target q \<notin> item_id ` set new" by auto
    then have n: "units_at (target q) (\<lambda>i. status i = Completed) new" by (rule units_at_absent)
    have "new \<noteq> [] \<Longrightarrow> target q \<noteq> x" using t xI by blast
    with c n have "units_at (target q) (\<lambda>i. status i = Completed) its'"
      by (auto simp: its'_eq units_at_upd [OF gid] units_at_append)
    with t show "refinement_ok J its' q" by (simp add: refinement_ok_def J_def)
  qed
  have sub': "item_id ` set its' \<subseteq> J" using sub unfolding idset J_def by blast
  from ok' dist' sub' rok' disj' qok' show ?thesis
    unfolding queue_inv_def J_def [symmetric] by blast
qed

lemma nth_runner_ids: "j < length (itemsToProcess rn) \<Longrightarrow> runner_ids rn ! j = item_id (itemsToProcess rn ! j)"
  by (simp add: runner_ids_def)

lemma runner_ids_pos: "runner_ids (rn\<lparr>pos := k\<rparr>) = runner_ids rn"
  by (simp add: runner_ids_def)

lemma advance_items:
  "items (state (advance r rn app)) =
     (if pos rn < length (itemsToProcess rn)
      then upd (runner_ids rn ! pos rn) (\<lambda>i. i\<lparr>status := Processing\<rparr>) (items (state app))
      else items (state app))"
  by (simp add: advance_def dispatch_def Let_def items_updateUnit_upd nth_runner_ids)

lemma advance_runs: "runs (advance r rn app) = runs app"
  by (simp add: advance_def dispatch_def Let_def)

lemma advance_refinements: "refinements (advance r rn app) = refinements app"
  by (simp add: advance_def dispatch_def Let_def)

lemma advance_promptConfig: "promptConfig (advance r rn app) = promptConfig app"
  by (simp add: advance_def dispatch_def Let_def)

lemma upd_absent: "\<forall>i \<in> set its. item_id i \<noteq> x \<Longrightarrow> upd x f its = its"
  by (induction its) (auto simp: upd_def)

lemma updateUnit_absent:
  assumes "x \<notin> set (map item_id (items prev))"
  shows "updateUnit x f prev = prev"
proof -
  from assms have "\<forall>i \<in> set (items prev). item_id i \<noteq> x" by (auto simp: image_iff)
  then have "upd x f (items prev) = items prev" by (rule upd_absent)
  then have "items (updateUnit x f prev) = items prev" by (simp add: items_updateUnit_upd)
  then show ?thesis by (simp add: updateUnit_def)
qed

lemma settleItem_eq:
  "settleItem x outcome prev =
     (if outcome = Inl Nullish \<and> x \<in> set (map item_id (items prev)) then None
      else Some (updateUnit x (settleFn outcome) prev))"
proof (cases outcome)
  case (Inl err)
  then show ?thesis
    by (cases err) (simp_all add: settleItem_def settleFn_def errorMessage_def updateUnit_absent)
next
  case (Inr result)
  then show ?thesis by (simp add: settleItem_def settleFn_def)
qed

lemma resume_eq:
  "processBatchQueue_resume gen r e app =
     (if r < length (runs app) \<and> pos (runs app ! r) < length (itemsToProcess (runs app ! r))
         \<and> gen e (file (itemsToProcess (runs app ! r) ! pos (runs app ! r))) (captured (runs app ! r))
             = Inl Nullish
         \<and> item_id (itemsToProcess (runs app ! r) ! pos (runs app ! r))
             \<in> set (map item_id (items (state app)))
      then None else Some (resumed gen r e app))"
  by (simp add: processBatchQueue_resume_def resumed_def Let_def settleItem_eq)

lemma resume_Some:
  "processBatchQueue_resume gen r e app = Some app' \<Longrightarrow>
   app' = resumed gen r e app
   \<and> (r < length (runs app) \<and> pos (runs app ! r) < length (itemsToProcess (runs app ! r)) \<longrightarrow>
        gen e (file (itemsToProcess (runs app ! r) ! pos (runs app ! r))) (captured (runs app ! r))
          \<noteq> Inl Nullish
        \<or> item_id (itemsToProcess (runs app ! r) ! pos (runs app ! r))
             \<notin> set (map item_id (items (state app))))"
  by (auto simp: resume_eq split: if_splits)

lemma settleFn_forms:
  "outcome \<noteq> Inl Nullish \<Longrightarrow>
   (\<exists>result. settleFn outcome = (\<lambda>i. i\<lparr>status := Completed, data := Some result\<rparr>))
   \<or> (\<exists>text. settleFn outcome = (\<lambda>i. i\<lparr>status := Error, error := Some text\<rparr>))"
proof (cases outcome)
  case (Inl err)
  assume "outcome \<noteq> Inl Nullish"
  with Inl obtain m where "err = JsError m" by (cases err) simp_all
  with Inl have "settleFn outcome =
      (\<lambda>i. i\<lparr>status := Error,
               error := Some (case m of Some text \<Rightarrow> if text \<noteq> [] then text else ''Failed to process''
                                       | None \<Rightarrow> ''Failed to process'')\<rparr>)"
    by (simp add: settleFn_def errorMessage_def)
  then show ?thesis by blast
next
  case (Inr result)
  then have "settleFn outcome = (\<lambda>i. i\<lparr>status := Completed, data := Some result\<rparr>)"
    by (simp add: settleFn_def)
  then show ?thesis by blast
qed

lemma resume_enabled:
  "r < length (runs app) \<Longrightarrow> pos (runs app ! r) < length (itemsToProcess (runs app ! r)) \<Longrightarrow>
   resumed gen r e app =
     advance r ((runs app ! r)\<lparr>pos := Suc (pos (runs app ! r))\<rparr>)
       (app\<lparr>state := updateUnit (item_id (itemsToProcess (runs app ! r) ! pos (runs app ! r)))
                        (settleFn (gen e (file (itemsToProcess (runs app ! r) ! pos (runs app ! r))) (captured (runs app ! r))))
                        (state app),
            runs := (runs app)[r := (runs app ! r)\<lparr>pos := Suc (pos (runs app ! r))\<rparr>]\<rparr>)"
  by (simp add: resumed_def Let_def)

lemma resume_disabled:
  "\<not> (r < length (runs app) \<and> pos (runs app ! r) < length (itemsToProcess (runs app ! r))) \<Longrightarrow>
   resumed gen r e app = app"
  by (auto simp: resumed_def)

lemma inv_resume:
  assumes inv: "session_inv I app"
    and ok: "r < length (runs app) \<and> pos (runs app ! r) < length (itemsToProcess (runs app ! r)) \<longrightarrow>
        gen e (file (itemsToProcess (runs app ! r) ! pos (runs app ! r))) (captured (runs app ! r))
          \<noteq> Inl Nullish
        \<or> item_id (itemsToProcess (runs app ! r) ! pos (runs app ! r))
             \<notin> set (map item_id (items (state app)))"
  shows "session_inv I (resumed gen r e app)"
proof (cases "r < length (runs app) \<and> pos (runs app ! r) < length (itemsToProcess (runs app ! r))")
  case False
  show ?thesis by (simp add: resume_disabled [OF False] inv)
next
  case True
  let ?rn = "runs app ! r"
  let ?x = "item_id (itemsToProcess ?rn ! pos ?rn)"
  let ?out = "gen e (file (itemsToProcess ?rn ! pos ?rn)) (captured ?rn)"
  let ?rn' = "?rn\<lparr>pos := Suc (pos ?rn)\<rparr>"
  from True have r: "r < length (runs app)" and p: "pos ?rn < length (itemsToProcess ?rn)"
    by simp_all
  note res = resume_enabled [OF r p, of gen e]
  have x: "runner_ids ?rn ! pos ?rn = ?x" using p by (simp add: nth_runner_ids)
  from ok True have nn: "?out \<noteq> Inl Nullish \<or> ?x \<notin> set (map item_id (items (state app)))"
    by simp
  define f where "f = (if ?out = Inl Nullish then (\<lambda>i. i\<lparr>status := Error, error := Some []\<rparr>)
                       else settleFn ?out)"
  have its1: "items (updateUnit ?x (settleFn ?out) (state app)) = upd ?x f (items (state app))"
  proof (cases "?out = Inl Nullish")
    case False
    then show ?thesis by (simp add: f_def items_updateUnit_upd)
  next
    case True
    with nn have "?x \<notin> item_id ` set (items (state app))" by simp
    then have "\<forall>i \<in> set (items (state app)). item_id i \<noteq> ?x" by (auto simp: image_iff)
    then have "upd ?x f (items (state app)) = items (state app)"
      and "upd ?x (settleFn ?out) (items (state app)) = items (state app)"
      by (simp_all add: upd_absent)
    then show ?thesis by (simp add: items_updateUnit_upd)
  qed
  obtain result msg where f: "(\<forall>i. f i = i\<lparr>status := Completed, data := Some result\<rparr>) \<or>
            (\<forall>i. f i = i\<lparr>status := Error, error := Some msg\<rparr>)"
  proof -
    have "(\<exists>result. f = (\<lambda>i. i\<lparr>status := Completed, data := Some result\<rparr>))
        \<or> (\<exists>text. f = (\<lambda>i. i\<lparr>status := Error, error := Some text\<rparr>))"
    proof (cases "?out = Inl Nullish")
      case True
      then show ?thesis by (auto simp: f_def)
    next
      case False
      from settleFn_forms [OF False] False show ?thesis by (simp add: f_def)
    qed
    then consider (ok) result where "f = (\<lambda>i. i\<lparr>status := Completed, data := Some result\<rparr>)"
      | (failed) msg where "f = (\<lambda>i. i\<lparr>status := Error, error := Some msg\<rparr>)"
      by blast
    then show ?thesis
    proof cases
      case ok
      then show ?thesis by (intro that [of result]) simp
    next
      case failed
      then show ?thesis by (intro that [of _ msg]) simp
    qed
  qed
  have its': "items (state (resumed gen r e app)) =
      (if Suc (pos ?rn) < length (itemsToProcess ?rn)
          then upd (runner_ids ?rn ! Suc (pos ?rn)) (\<lambda>i. i\<lparr>status := Processing\<rparr>)
                 (upd (runner_ids ?rn ! pos ?rn) f (items (state app)))
          else upd (runner_ids ?rn ! pos ?rn) f (items (state app)))"
    by (simp add: res advance_items its1 x runner_ids_pos)
  have runs': "runs (resumed gen r e app) = (runs app)[r := ?rn']"
    by (simp add: res advance_runs)
  have refs': "refinements (resumed gen r e app) = refinements app"
    by (simp add: res advance_refinements)
  from inv have "queue_inv I (items (state app)) (runs app) (refinements app)"
    by (simp add: session_inv_def)
  from queue_inv_settle [OF this r p f its']
  show ?thesis by (simp add: session_inv_def runs' refs')
qed

lemma start_items:
  "items (state (processBatchQueue_start cfg new app)) =
     (if new = [] then items (state app)
      else upd (item_id (new ! 0)) (\<lambda>i. i\<lparr>status := Processing\<rparr>) (items (state app)))"
  by (simp add: processBatchQueue_start_def Let_def advance_items nth_runner_ids)

lemma start_runs:
  "runs (processBatchQueue_start cfg new app) = runs app @ [\<lparr>captured = cfg, itemsToProcess = new, pos = 0\<rparr>]"
  by (simp add: processBatchQueue_start_def Let_def advance_runs)

lemma start_refinements: "refinements (processBatchQueue_start cfg new app) = refinements app"
  by (simp add: processBatchQueue_start_def Let_def advance_refinements)

lemma appendItems_items: "appendItems new prev = Some st \<Longrightarrow> items st = items prev @ new"
  by (auto simp: appendItems_def split: if_splits list.splits)

lemma newItems_pending:
  "\<forall>i \<in> set (newItems rand final). status i = Pending \<and> data i = None \<and> error i = None"
  by (auto simp: newItems_def)

lemma inv_files:
  assumes inv: "session_inv I app"
    and d: "distinct (map item_id (newItems rand (finalFiles env files)))"
    and fresh: "set (map item_id (newItems rand (finalFiles env files))) \<inter> I = {}"
    and res: "handleFilesSelect env rand files app = Some app'"
  shows "session_inv (I \<union> set (map item_id (newItems rand (finalFiles env files)))) app'"
proof -
  let ?new = "newItems rand (finalFiles env files)"
  from res obtain st where st: "appendItems ?new (state app) = Some st"
    and app': "app' = processBatchQueue_start (promptConfig app) ?new (app\<lparr>state := st\<rparr>)"
    by (auto simp: handleFilesSelect_def Let_def split: option.splits)
  have its': "items (state app') =
      (if ?new = [] then items (state app) @ ?new
       else upd (item_id (?new ! 0)) (\<lambda>i. i\<lparr>status := Processing\<rparr>) (items (state app) @ ?new))"
    by (simp add: app' start_items appendItems_items [OF st])
  have runs': "runs app' = runs app @ [\<lparr>captured = promptConfig app, itemsToProcess = ?new, pos = 0\<rparr>]"
    by (simp add: app' start_runs)
  have refs': "refinements app' = refinements app"
    by (simp add: app' start_refinements)
  from inv have "queue_inv I (items (state app)) (runs app) (refinements app)"
    by (simp add: session_inv_def)
  from queue_inv_admit [OF this newItems_pending d fresh its', of "\<lparr>captured = promptConfig app, itemsToProcess = ?new, pos = 0\<rparr>"]
  show ?thesis by (simp add: session_inv_def runs' refs')
qed

lemma activeItem_mem: "activeItem s = Some a \<Longrightarrow> a \<in> set (items s)"
  by (auto simp: activeItem_def find_Some_iff split: option.splits list.splits)

lemma inv_onUpdate:
  assumes inv: "session_inv I app"
  shows "session_inv I (onUpdate newData app)"
proof (cases "activeItem (state app)")
  case None
  with inv show ?thesis by (simp add: onUpdate_def)
next
  case (Some a)
  show ?thesis
  proof (cases "status a = Completed \<and> data a \<noteq> None")
    case False
    with Some inv show ?thesis by (auto simp: onUpdate_def)
  next
    case True
    from inv have q: "queue_inv I (items (state app)) (runs app) (refinements app)"
      by (simp add: session_inv_def)
    then have dist: "distinct (map item_id (items (state app)))" by (simp add: queue_inv_def)
    from True have "status a = Completed" by simp
    from units_at_distinct [OF dist activeItem_mem [OF Some], of "\<lambda>i. status i = Completed", OF this]
    have c: "units_at (item_id a) (\<lambda>i. status i = Completed) (items (state app))" .
    have "onUpdate newData app = handleUpdateItem (item_id a) newData app"
      using Some True by (simp add: onUpdate_def)
    moreover from queue_inv_data [OF q _ c, of "\<lambda>item. item\<lparr>data := Some newData\<rparr>" newData]
    have "queue_inv I (upd (item_id a) (\<lambda>item. item\<lparr>data := Some newData\<rparr>) (items (state app)))
        (runs app) (refinements app)" by simp
    ultimately show ?thesis
      by (simp add: session_inv_def handleUpdateItem_def items_updateUnit_upd)
  qed
qed

lemma inv_refine_call:
  assumes inv: "session_inv I app"
  shows "session_inv I (fst (handleRefineItem_call x instr ratio app))"
proof (cases "find (\<lambda>i. item_id i = x) (items (state app))")
  case None
  with inv show ?thesis by (simp add: handleRefineItem_call_def)
next
  case (Some item)
  show ?thesis
  proof (cases "data item")
    case None
    with Some inv show ?thesis by (simp add: handleRefineItem_call_def)
  next
    case (Some d)
    let ?q = "\<lparr>target = x, currentData = d, instruction = instr,
                refineConfig = (promptConfig app)\<lparr>aspectRatio := ratio\<rparr>, newAspectRatio = ratio\<rparr>"
    from inv have q: "queue_inv I (items (state app)) (runs app) (refinements app)"
      by (simp add: session_inv_def)
    from Some have "data item \<noteq> None" by simp
    from queue_inv_request [OF q \<open>find (\<lambda>i. item_id i = x) (items (state app)) = Some item\<close> this, of ?q]
    have "queue_inv I (items (state app)) (runs app) (refinements app @ [?q])" by simp
    then show ?thesis
      using Some \<open>find (\<lambda>i. item_id i = x) (items (state app)) = Some item\<close>
      by (simp add: handleRefineItem_call_def session_inv_def)
  qed
qed

lemma inv_refine_settle:
  assumes inv: "session_inv I app"
  shows "session_inv I (fst (handleRefineItem_settle k response app))"
proof (cases "k < length (refinements app)")
  case False
  with inv show ?thesis by (simp add: handleRefineItem_settle_def)
next
  case True
  let ?q = "refinements app ! k"
  let ?rest = "take k (refinements app) @ drop (Suc k) (refinements app)"
  from inv have q: "queue_inv I (items (state app)) (runs app) (refinements app)"
    by (simp add: session_inv_def)
  have sub: "set ?rest \<subseteq> set (refinements app)"
    by (auto dest: in_set_takeD in_set_dropD)
  show ?thesis
  proof (cases "refineMetadata response (currentData ?q) (instruction ?q) (refineConfig ?q)")
    case (Inl err)
    from queue_inv_refinements [OF q sub] Inl True show ?thesis
      by (simp add: handleRefineItem_settle_def Let_def session_inv_def)
  next
    case (Inr refinedResult)
    from q True have "refinement_ok I (items (state app)) ?q" by (simp add: queue_inv_def)
    then have c: "units_at (target ?q) (\<lambda>i. status i = Completed) (items (state app))"
      by (simp add: refinement_ok_def)
    from queue_inv_data [OF q _ c, of "\<lambda>i. i\<lparr>data := Some refinedResult\<rparr>" refinedResult]
    have "queue_inv I (upd (target ?q) (\<lambda>i. i\<lparr>data := Some refinedResult\<rparr>) (items (state app)))
        (runs app) (refinements app)" by simp
    from queue_inv_refinements [OF this sub] Inr True show ?thesis
      by (simp add: handleRefineItem_settle_def Let_def session_inv_def items_updateUnit_upd)
  qed
qed

lemma inv_step:
  assumes inv: "session_inv I app"
    and d: "distinct (created ev)" and fresh: "set (created ev) \<inter> I = {}"
    and st: "step gen ev app = Some app'"
  shows "session_inv (I \<union> set (created ev)) app'"
proof (cases ev)
  case (FilesSelect env rand files)
  with inv d fresh st show ?thesis using inv_files [of I app rand env files app'] by simp
next
  case (GenSettled r e)
  with st have "processBatchQueue_resume gen r e app = Some app'" by simp
  from resume_Some [OF this] inv_resume [OF inv, of r gen e] show ?thesis
    using GenSettled by simp
next
  case (UpdateItem newData)
  with inv st show ?thesis using inv_onUpdate [of I app newData] by auto
next
  case (SelectItem x)
  with inv st show ?thesis by (auto simp: session_inv_def handleSelectItem_def)
next
  case Clear
  from inv have "queue_inv I (items (state app)) (runs app) (refinements app)"
    by (simp add: session_inv_def)
  from queue_inv_clear [OF this] Clear st show ?thesis
    by (auto simp: session_inv_def handleClear_def)
next
  case (RefineItem x instr ratio)
  with inv st show ?thesis using inv_refine_call [of I app x instr ratio] by auto
next
  case (RefineSettled k response)
  with inv st show ?thesis using inv_refine_settle [of I app k response] by auto
next
  case (SetPromptConfig cfg)
  with inv st show ?thesis by (auto simp: session_inv_def)
qed

lemma inv_run:
  "session_inv I app \<Longrightarrow> distinct (concat (map created evs)) \<Longrightarrow>
   set (concat (map created evs)) \<inter> I = {} \<Longrightarrow> run gen evs app = Some app' \<Longrightarrow>
   session_inv (I \<union> set (concat (map created evs))) app'"
proof (induction evs arbitrary: I app)
  case Nil
  then show ?case by simp
next
  case (Cons ev evs)
  from Cons.prems(4) obtain app1 where s1: "step gen ev app = Some app1"
    and r1: "run gen evs app1 = Some app'"
    by (auto split: option.splits)
  from Cons.prems(2) have d1: "distinct (created ev)" and d2: "distinct (concat (map created evs))"
    and d3: "set (created ev) \<inter> set (concat (map created evs)) = {}"
    by simp_all
  from Cons.prems(3) have f1: "set (created ev) \<inter> I = {}"
    and f2: "set (concat (map created evs)) \<inter> I = {}" by auto
  from inv_step [OF Cons.prems(1) d1 f1 s1] have i1: "session_inv (I \<union> set (created ev)) app1" .
  from f2 d3 have f3: "set (concat (map created evs)) \<inter> (I \<union> set (created ev)) = {}" by blast
  from Cons.IH [OF i1 d2 f3 r1]
  show ?case by (simp add: Un_assoc)
qed

lemma inv_init: "session_inv {} init"
  by (simp add: session_inv_def queue_inv_def init_def)

section \<open>Unit invariant and processing order\<close>

lemma session2_run:
  "run generateStockMetadata session2 init =
     Some \<lparr>state = \<lparr>items = [\<lparr>item_id = ''aa'', file = photo, status = Completed,
                               data = Some (d0\<lparr>used_model := Some midjourney\<rparr>), error = None\<rparr>,
                             \<lparr>item_id = ''bb'', file = deck, status = Processing, data = None, error = None\<rparr>],
                    isProcessing = True, activeItemId = Some ''aa''\<rparr>,
           promptConfig = config0, isRefining = False,
           runs = [\<lparr>captured = config0,
                    itemsToProcess = [\<lparr>item_id = ''aa'', file = photo, status = Pending, data = None, error = None\<rparr>,
                                      \<lparr>item_id = ''bb'', file = deck, status = Pending, data = None, error = None\<rparr>],
                    pos = 1\<rparr>],
           refinements = [],
           calls = [\<lparr>caller = 0, callFile = photo, callConfig = config0\<rparr>,
                    \<lparr>caller = 0, callFile = deck, callConfig = config0\<rparr>]\<rparr>"
  by (simp add: session2_def app_defs config0_def photo_def deck_def rand1_def noLibrary_def
      convertPdfToImages_def)

lemma session2_created: "concat (map created session2) = [''aa'', ''bb'']"
  by (simp add: session2_def app_defs photo_def deck_def rand1_def noLibrary_def convertPdfToImages_def)

text \<open>
  C4, as the code has it. Every update of a unit finds it by its id and changes every unit
  that carries the id, and nothing keeps two ids apart. In every state that a session
  reaches from the initial state, by any sequence of
  file selections, settled generation calls, edits through the result card, selections,
  resets, refinement requests and settled refinements, and in which no two units created
  share an id: each unit has a result exactly when its status is \<^verbatim>\<open>completed\<close> and an
  error message exactly when its status is \<^verbatim>\<open>error\<close>, so a \<^verbatim>\<open>pending\<close> or
  \<^verbatim>\<open>processing\<close> unit has neither.
\<close>

theorem unit_invariant:
  assumes reach: "run gen evs init = Some app"
    and uniq: "distinct (concat (map created evs))"
  shows "\<forall>i \<in> set (items (state app)).
           ((data i \<noteq> None) = (status i = Completed))
           \<and> ((error i \<noteq> None) = (status i = Error))
           \<and> (status i = Pending \<or> status i = Processing \<longrightarrow> data i = None \<and> error i = None)"
proof -
  from inv_run [OF inv_init uniq _ reach] have "session_inv (set (concat (map created evs))) app"
    by simp
  then have "\<forall>i \<in> set (items (state app)). unit_ok i"
    by (simp add: session_inv_def queue_inv_def)
  then show ?thesis by (auto simp: unit_ok_def)
qed

theorem unit_invariant_witness:
  "distinct (concat (map created session2))
   \<and> map_option (\<lambda>a. map (\<lambda>i. (status i, data i \<noteq> None, error i \<noteq> None)) (items (state a)))
        (run generateStockMetadata session2 init)
      = Some [(Completed, True, False), (Processing, False, False)]"
proof -
  have d: "distinct (concat (map created session2))" by (simp add: session2_created)
  note unit_invariant [OF session2_run d]
  then show ?thesis using d by (simp add: session2_run)
qed

text \<open>
  C4 as stated fails. Two files selected together get the same id; when the call for the
  first settles with a result, both units are \<^verbatim>\<open>completed\<close> with it, and the runner then
  marks both \<^verbatim>\<open>processing\<close>: two \<^verbatim>\<open>processing\<close> units with a result.
\<close>

theorem unit_invariant_counterexample:
  "map_option (\<lambda>a. map (\<lambda>i. (name (file i), item_id i, status i, data i \<noteq> None, error i \<noteq> None))
                       (items (state a)))
     (run generateStockMetadata [FilesSelect noLibrary rand0 [photo, deck], GenSettled 0 (ApiText d0)] init)
   = Some [(''a.jpg'', ''abc'', Processing, True, False), (''deck.pdf'', ''abc'', Processing, True, False)]"
  by (simp add: app_defs config0_def photo_def deck_def rand0_def noLibrary_def
      convertPdfToImages_def)

text \<open>
  C1, as the code has it. In every state of a session in which no two units created share
  an id, and for every batch admitted in it (the
  \<^verbatim>\<open>itemsToProcess\<close> of a runner): when unit K+1 of the batch is in the queue and is no
  longer \<^verbatim>\<open>pending\<close>, unit K is in the queue, every unit with its id is \<^verbatim>\<open>completed\<close> or
  \<^verbatim>\<open>error\<close>, and the loop of the runner has passed K. Units leave \<^verbatim>\<open>pending\<close>, and reach
  a terminal state, in admission order.
\<close>

theorem sequential_order:
  assumes reach: "run gen evs init = Some app"
    and uniq: "distinct (concat (map created evs))"
    and rn: "rn \<in> set (runs app)"
    and K: "Suc K < length (itemsToProcess rn)"
    and b: "b \<in> set (items (state app))" "item_id b = item_id (itemsToProcess rn ! Suc K)"
    and left: "status b \<noteq> Pending"
  shows "(\<exists>a \<in> set (items (state app)). item_id a = item_id (itemsToProcess rn ! K))
    \<and> (\<forall>a \<in> set (items (state app)). item_id a = item_id (itemsToProcess rn ! K) \<longrightarrow>
          status a = Completed \<or> status a = Error)
    \<and> K < pos rn"
proof -
  from inv_run [OF inv_init uniq _ reach] have "session_inv (set (concat (map created evs))) app"
    by simp
  with rn have rok: "runner_ok (set (concat (map created evs))) (items (state app)) rn"
    by (simp add: session_inv_def queue_inv_def)
  then have ph: "\<forall>j < length (itemsToProcess rn).
      units_at (runner_ids rn ! j) (\<lambda>i. phase (pos rn) j (status i)) (items (state app))"
    and pres: "set (runner_ids rn) \<subseteq> item_id ` set (items (state app))
       \<or> set (runner_ids rn) \<inter> item_id ` set (items (state app)) = {}"
    by (simp_all add: runner_ok_def)
  from K have K': "K < length (itemsToProcess rn)" by simp
  from ph K b have "phase (pos rn) (Suc K) (status b)"
    by (simp add: units_at_def nth_runner_ids)
  with left have p: "K < pos rn" by (auto simp: phase_def split: if_splits)
  from ph K' have "units_at (item_id (itemsToProcess rn ! K)) (\<lambda>i. phase (pos rn) K (status i)) (items (state app))"
    by (simp add: nth_runner_ids)
  with p have fin: "\<forall>a \<in> set (items (state app)). item_id a = item_id (itemsToProcess rn ! K) \<longrightarrow>
          status a = Completed \<or> status a = Error"
    by (simp add: units_at_def phase_def)
  have "item_id b \<in> set (runner_ids rn)" using K b(2) by (simp add: runner_ids_def)
  with b(1) pres have "set (runner_ids rn) \<subseteq> item_id ` set (items (state app))" by blast
  moreover have "item_id (itemsToProcess rn ! K) \<in> set (runner_ids rn)"
    using K' by (simp add: runner_ids_def)
  ultimately have "item_id (itemsToProcess rn ! K) \<in> item_id ` set (items (state app))"
    by (rule subsetD)
  then have ex: "\<exists>a \<in> set (items (state app)). item_id a = item_id (itemsToProcess rn ! K)"
    by (auto simp: image_iff)
  from ex fin p show ?thesis by blast
qed

theorem sequential_order_witness:
  "distinct (concat (map created session2))
   \<and> map_option (\<lambda>a. map (\<lambda>i. (item_id i, status i)) (items (state a)))
        (run generateStockMetadata session2 init)
      = Some [(''aa'', Completed), (''bb'', Processing)]
   \<and> map_option (\<lambda>a. map (\<lambda>rn. (map item_id (itemsToProcess rn), pos rn)) (runs a))
        (run generateStockMetadata session2 init)
      = Some [([''aa'', ''bb''], 1)]"
proof -
  have d: "distinct (concat (map created session2))" by (simp add: session2_created)
  let ?rn = "\<lparr>captured = config0,
                    itemsToProcess = [\<lparr>item_id = ''aa'', file = photo, status = Pending, data = None, error = None\<rparr>,
                                      \<lparr>item_id = ''bb'', file = deck, status = Pending, data = None, error = None\<rparr>],
                    pos = 1\<rparr>"
  let ?b = "\<lparr>item_id = ''bb'', file = deck, status = Processing, data = None, error = None\<rparr>"
  have "(0::nat) < pos ?rn"
    using sequential_order [OF session2_run d, of ?rn 0 ?b] by simp
  then show ?thesis using d by (simp add: session2_run)
qed

text \<open>
  C1 as stated fails. Two files selected together get the same id; the update that starts
  the first unit marks both \<^verbatim>\<open>processing\<close>, so the second unit of the batch has left
  \<^verbatim>\<open>pending\<close> while the first has reached no terminal state and the runner stands at
  position 0.
\<close>

theorem sequential_order_counterexample:
  "map_option (\<lambda>a. (map (\<lambda>rn. (map (\<lambda>i. name (file i)) (itemsToProcess rn), pos rn)) (runs a),
                      map (\<lambda>i. (name (file i), item_id i, status i)) (items (state a))))
     (run generateStockMetadata [FilesSelect noLibrary rand0 [photo, deck]] init)
   = Some ([([''a.jpg'', ''deck.pdf''], 0)],
           [(''a.jpg'', ''abc'', Processing), (''deck.pdf'', ''abc'', Processing)])"
  by (simp add: app_defs config0_def photo_def deck_def rand0_def noLibrary_def
      convertPdfToImages_def)

section \<open>The configuration of a generation call\<close>

lemma advance_calls:
  "calls (advance r rn app) =
     (if pos rn < length (itemsToProcess rn)
      then calls app @ [\<lparr>caller = r, callFile = file (itemsToProcess rn ! pos rn), callConfig = captured rn\<rparr>]
      else calls app)"
  by (simp add: advance_def dispatch_def Let_def)

lemma start_calls:
  "calls (processBatchQueue_start cfg new app) =
     (if new = [] then calls app
      else calls app @ [\<lparr>caller = length (runs app), callFile = file (new ! 0), callConfig = cfg\<rparr>])"
  by (simp add: processBatchQueue_start_def Let_def advance_calls)

lemma resume_calls:
  "r < length (runs app) \<Longrightarrow> pos (runs app ! r) < length (itemsToProcess (runs app ! r)) \<Longrightarrow>
   calls (resumed gen r e app) =
     (if Suc (pos (runs app ! r)) < length (itemsToProcess (runs app ! r))
      then calls app @ [\<lparr>caller = r, callFile = file (itemsToProcess (runs app ! r) ! Suc (pos (runs app ! r))),
                          callConfig = captured (runs app ! r)\<rparr>]
      else calls app)"
  by (simp add: resume_enabled advance_calls)

lemma resume_runs:
  "r < length (runs app) \<Longrightarrow> pos (runs app ! r) < length (itemsToProcess (runs app ! r)) \<Longrightarrow>
   runs (resumed gen r e app) = (runs app)[r := (runs app ! r)\<lparr>pos := Suc (pos (runs app ! r))\<rparr>]"
  by (simp add: resume_enabled advance_runs)

lemma nth_update_pos:
  "n < length rns \<Longrightarrow>
   captured (rns[r := (rns ! r)\<lparr>pos := k\<rparr>] ! n) = captured (rns ! n)
   \<and> itemsToProcess (rns[r := (rns ! r)\<lparr>pos := k\<rparr>] ! n) = itemsToProcess (rns ! n)"
  by (cases "n = r") simp_all

lemma runs_extend_refl: "runs_extend app app"
  by (simp add: runs_extend_def)

lemma runs_extend_trans: "runs_extend a b \<Longrightarrow> runs_extend b c \<Longrightarrow> runs_extend a c"
  by (auto simp: runs_extend_def)

lemma runs_extend_same: "runs app' = runs app \<Longrightarrow> runs_extend app app'"
  by (simp add: runs_extend_def)

lemma calls_ok_same: "calls_ok app \<Longrightarrow> runs app' = runs app \<Longrightarrow> calls app' = calls app \<Longrightarrow> calls_ok app'"
  by (simp add: calls_ok_def)

lemma resume_extend: "runs_extend app (resumed gen r e app)"
proof (cases "r < length (runs app) \<and> pos (runs app ! r) < length (itemsToProcess (runs app ! r))")
  case False
  show ?thesis by (simp add: resume_disabled [OF False] runs_extend_refl)
next
  case True
  then have r: "r < length (runs app)" and p: "pos (runs app ! r) < length (itemsToProcess (runs app ! r))"
    by simp_all
  show ?thesis
    unfolding runs_extend_def resume_runs [OF r p]
    by (simp add: nth_update_pos)
qed

lemma resume_calls_ok:
  assumes ok: "calls_ok app"
  shows "calls_ok (resumed gen r e app)"
proof (cases "r < length (runs app) \<and> pos (runs app ! r) < length (itemsToProcess (runs app ! r))")
  case False
  show ?thesis by (simp add: resume_disabled [OF False] ok)
next
  case True
  then have r: "r < length (runs app)" and p: "pos (runs app ! r) < length (itemsToProcess (runs app ! r))"
    by simp_all
  have cap: "\<And>n. n < length (runs app) \<Longrightarrow>
      captured ((runs app)[r := (runs app ! r)\<lparr>pos := Suc (pos (runs app ! r))\<rparr>] ! n) = captured (runs app ! n)"
    by (simp add: nth_update_pos)
  show ?thesis
    using ok r unfolding calls_ok_def resume_runs [OF r p] resume_calls [OF r p]
    by (auto simp: cap)
qed

lemma files_result:
  "handleFilesSelect env rand files app = Some app' \<Longrightarrow>
   runs app' = runs app @ [\<lparr>captured = promptConfig app,
                             itemsToProcess = newItems rand (finalFiles env files), pos = 0\<rparr>]
   \<and> calls app' =
       (if newItems rand (finalFiles env files) = [] then calls app
        else calls app @ [\<lparr>caller = length (runs app), callFile = file (newItems rand (finalFiles env files) ! 0),
                            callConfig = promptConfig app\<rparr>])"
  by (auto simp: handleFilesSelect_def Let_def start_runs start_calls split: option.splits)

lemma files_extend: "handleFilesSelect env rand files app = Some app' \<Longrightarrow> runs_extend app app'"
  by (drule files_result) (auto simp: runs_extend_def nth_append)

lemma files_calls_ok:
  assumes ok: "calls_ok app" and res: "handleFilesSelect env rand files app = Some app'"
  shows "calls_ok app'"
  using files_result [OF res] ok
  by (auto simp: calls_ok_def nth_append)

lemma refine_call_runs: "runs (fst (handleRefineItem_call x instr ratio app)) = runs app"
  by (simp add: handleRefineItem_call_def split: option.splits)

lemma refine_call_calls: "calls (fst (handleRefineItem_call x instr ratio app)) = calls app"
  by (simp add: handleRefineItem_call_def split: option.splits)

lemma refine_settle_runs: "runs (fst (handleRefineItem_settle k response app)) = runs app"
  by (simp add: handleRefineItem_settle_def Let_def split: sum.splits)

lemma refine_settle_calls: "calls (fst (handleRefineItem_settle k response app)) = calls app"
  by (simp add: handleRefineItem_settle_def Let_def split: sum.splits)

lemma onUpdate_runs: "runs (onUpdate newData app) = runs app"
  by (simp add: onUpdate_def handleUpdateItem_def split: option.splits)

lemma onUpdate_calls: "calls (onUpdate newData app) = calls app"
  by (simp add: onUpdate_def handleUpdateItem_def split: option.splits)

lemma step_calls:
  assumes st: "step gen ev app = Some app'"
  shows "runs_extend app app' \<and> (calls_ok app \<longrightarrow> calls_ok app')"
proof (cases ev)
  case (FilesSelect env rand files)
  with st show ?thesis using files_extend files_calls_ok by auto
next
  case (GenSettled r e)
  with st have "processBatchQueue_resume gen r e app = Some app'" by simp
  from resume_Some [OF this] show ?thesis using resume_extend resume_calls_ok by auto
next
  case (UpdateItem newData)
  with st show ?thesis
    using runs_extend_same [OF onUpdate_runs] calls_ok_same [OF _ onUpdate_runs onUpdate_calls] by auto
next
  case (SelectItem x)
  with st show ?thesis by (auto simp: handleSelectItem_def runs_extend_def calls_ok_def)
next
  case Clear
  with st show ?thesis by (auto simp: handleClear_def runs_extend_def calls_ok_def)
next
  case (RefineItem x instr ratio)
  with st show ?thesis
    using runs_extend_same [OF refine_call_runs] calls_ok_same [OF _ refine_call_runs refine_call_calls]
    by auto
next
  case (RefineSettled k response)
  with st show ?thesis
    using runs_extend_same [OF refine_settle_runs] calls_ok_same [OF _ refine_settle_runs refine_settle_calls]
    by auto
next
  case (SetPromptConfig cfg)
  with st show ?thesis by (auto simp: runs_extend_def calls_ok_def)
qed

lemma run_calls:
  "run gen evs app = Some app' \<Longrightarrow> runs_extend app app' \<and> (calls_ok app \<longrightarrow> calls_ok app')"
proof (induction evs arbitrary: app)
  case Nil
  then show ?case by (simp add: runs_extend_refl)
next
  case (Cons ev evs)
  from Cons.prems obtain app1 where s1: "step gen ev app = Some app1"
    and r1: "run gen evs app1 = Some app'"
    by (auto split: option.splits)
  from step_calls [OF s1] Cons.IH [OF r1] show ?case
    using runs_extend_trans by blast
qed

lemma calls_ok_init: "calls_ok init"
  by (simp add: calls_ok_def init_def)

lemma run_split:
  "run gen (ev # evs) app = Some app3 \<Longrightarrow>
   \<exists>app2. step gen ev app = Some app2 \<and> run gen evs app2 = Some app3"
  by (auto split: option.splits)

lemmas refine_defs = handleRefineItem_call_def handleRefineItem_settle_def refineMetadata_def

lemma session3_run:
  "map_option (\<lambda>a. (aspectRatio (promptConfig a), map (\<lambda>c. aspectRatio (callConfig c)) (calls a),
                    map status (items (state a))))
     (run generateStockMetadata session3 init)
   = Some (''1:1'', [''16:9'', ''16:9''], [Completed, Processing, Pending])"
  by (simp add: session3_def app_defs refine_defs photo_def deck_def rand1_def noLibrary_def
      convertPdfToImages_def)

lemma session3_next:
  "map_option (\<lambda>a. (aspectRatio (promptConfig a), map (\<lambda>c. aspectRatio (callConfig c)) (calls a),
                    map status (items (state a))))
     (run generateStockMetadata (session3 @ [GenSettled 0 (ApiText d0)]) init)
   = Some (''1:1'', [''16:9'', ''16:9'', ''16:9''], [Completed, Completed, Processing])"
  by (simp add: session3_def app_defs refine_defs photo_def deck_def rand1_def noLibrary_def
      convertPdfToImages_def)

text \<open>
  C3, as the code has it. A batch admitted in a state \<open>app1\<close> of a session is run by a
  runner that keeps the configuration \<open>promptConfig app1\<close>: whatever happens afterwards,
  every generation call of that run is made with the shared configuration as it stood
  when the batch was admitted. A change to the shared configuration while the run is in
  flight affects no unit of that run.
\<close>

theorem generation_config_captured:
  assumes before: "run gen evs1 init = Some app1"
    and admit: "step gen (FilesSelect env rand files) app1 = Some app2"
    and after: "run gen evs2 app2 = Some app3"
  shows "length (runs app1) < length (runs app3)
    \<and> itemsToProcess (runs app3 ! length (runs app1)) = newItems rand (finalFiles env files)
    \<and> captured (runs app3 ! length (runs app1)) = promptConfig app1
    \<and> (\<forall>c \<in> set (calls app3). caller c = length (runs app1) \<longrightarrow> callConfig c = promptConfig app1)"
proof -
  from run_calls [OF before] calls_ok_init have ok1: "calls_ok app1" by blast
  from admit have res: "handleFilesSelect env rand files app1 = Some app2" by simp
  from files_calls_ok [OF ok1 res] have ok2: "calls_ok app2" .
  from run_calls [OF after] ok2 have ok3: "calls_ok app3" and ext: "runs_extend app2 app3" by blast+
  from files_result [OF res] have runs2: "runs app2 = runs app1 @ [\<lparr>captured = promptConfig app1,
      itemsToProcess = newItems rand (finalFiles env files), pos = 0\<rparr>]" by blast
  then have n2: "length (runs app1) < length (runs app2)"
    and c2: "captured (runs app2 ! length (runs app1)) = promptConfig app1"
    and i2: "itemsToProcess (runs app2 ! length (runs app1)) = newItems rand (finalFiles env files)"
    by simp_all
  from ext n2 have n3: "length (runs app1) < length (runs app3)"
    and c3: "captured (runs app3 ! length (runs app1)) = captured (runs app2 ! length (runs app1))"
    and i3: "itemsToProcess (runs app3 ! length (runs app1)) = itemsToProcess (runs app2 ! length (runs app1))"
    by (auto simp: runs_extend_def)
  from ok3 c3 c2 have "\<forall>c \<in> set (calls app3). caller c = length (runs app1) \<longrightarrow> callConfig c = promptConfig app1"
    by (auto simp: calls_ok_def)
  with n3 c3 c2 i3 i2 show ?thesis by simp
qed

theorem generation_config_captured_witness:
  "run generateStockMetadata [] init = Some init
   \<and> map_option (\<lambda>a. map (\<lambda>c. (caller c, callConfig c = promptConfig init)) (calls a))
       (run generateStockMetadata (session3 @ [GenSettled 0 (ApiText d0)]) init)
     = Some [(0, True), (0, True), (0, True)]"
proof -
  have e: "session3 @ [GenSettled 0 (ApiText d0)] =
      FilesSelect noLibrary rand1 [photo, deck, photo] #
        [GenSettled 0 (ApiText d0), RefineItem ''aa'' ''warmer light'' ''1:1'',
         RefineSettled 0 (ApiText d0), GenSettled 0 (ApiText d0)]"
    by (simp add: session3_def)
  obtain app3 where r3: "run generateStockMetadata (session3 @ [GenSettled 0 (ApiText d0)]) init = Some app3"
    using session3_next by (auto simp: map_option_case split: option.splits)
  from run_split [OF r3 [unfolded e]] obtain app2 where
    s: "step generateStockMetadata (FilesSelect noLibrary rand1 [photo, deck, photo]) init = Some app2"
    and r: "run generateStockMetadata [GenSettled 0 (ApiText d0), RefineItem ''aa'' ''warmer light'' ''1:1'',
         RefineSettled 0 (ApiText d0), GenSettled 0 (ApiText d0)] app2 = Some app3"
    by blast
  have i: "run generateStockMetadata [] init = Some init" by simp
  from generation_config_captured [OF i s r]
  have cap: "\<forall>c \<in> set (calls app3). caller c = length (runs init) \<longrightarrow> callConfig c = promptConfig init"
    by blast
  have "map caller (calls app3) = [0, 0, 0]"
    using r3 by (simp add: session3_def app_defs refine_defs photo_def deck_def rand1_def noLibrary_def
      convertPdfToImages_def) auto
  with cap have "map (\<lambda>c. (caller c, callConfig c = promptConfig init)) (calls app3) = [(0, True), (0, True), (0, True)]"
    by (auto simp: init_def map_eq_Cons_conv)
  with r3 i show ?thesis by simp
qed

text \<open>
  C3 as stated fails. Three files are admitted under the aspect ratio 16:9; the first
  unit completes and is refined with the aspect ratio 1:1, which becomes the shared one
  while the second unit is in flight and the third has not started. When the second call
  settles, the third is started, and it is passed 16:9.
\<close>

theorem generation_config_counterexample:
  "map_option (\<lambda>a. (aspectRatio (promptConfig a), map (\<lambda>c. aspectRatio (callConfig c)) (calls a),
                    map status (items (state a))))
     (run generateStockMetadata session3 init)
   = Some (''1:1'', [''16:9'', ''16:9''], [Completed, Processing, Pending])
   \<and> map_option (\<lambda>a. (aspectRatio (promptConfig a), map (\<lambda>c. aspectRatio (callConfig c)) (calls a),
                    map status (items (state a))))
     (run generateStockMetadata (session3 @ [GenSettled 0 (ApiText d0)]) init)
   = Some (''1:1'', [''16:9'', ''16:9'', ''16:9''], [Completed, Completed, Processing])"
  using session3_run session3_next by (rule conjI)

section \<open>Failure isolation\<close>

lemma settleFn_id: "item_id (settleFn outcome i) = item_id i"
  by (cases outcome) (simp_all add: settleFn_def)

lemma settled_upd: "items (updateUnit x (settleFn outcome) prev) = upd x (settleFn outcome) (items prev)"
  by (rule items_updateUnit_upd)

lemma filter_upd:
  "(\<And>i. item_id (f i) = item_id i) \<Longrightarrow>
   filter (\<lambda>i. item_id i \<noteq> x) (upd y f its) = upd y f (filter (\<lambda>i. item_id i \<noteq> x) its)"
  by (induction its) (auto simp: upd_def)

lemma filter_upd_same:
  "(\<And>i. item_id (f i) = item_id i) \<Longrightarrow>
   filter (\<lambda>i. item_id i \<noteq> x) (upd x f its) = filter (\<lambda>i. item_id i \<noteq> x) its"
  by (simp add: filter_upd upd_absent)

text \<open>One settled call of the runner \<open>r\<close>, when it stands at position \<open>n\<close>.\<close>

lemma resume_at:
  assumes at: "runner_at r new cfg n app" and n: "n < length new"
  shows "runner_at r new cfg (Suc n) (resumed gen r e app)"
    and "items (state (resumed gen r e app)) =
      (if Suc n < length new
       then upd (item_id (new ! Suc n)) (\<lambda>i. i\<lparr>status := Processing\<rparr>)
              (upd (item_id (new ! n)) (settleFn (gen e (file (new ! n)) cfg)) (items (state app)))
       else upd (item_id (new ! n)) (settleFn (gen e (file (new ! n)) cfg)) (items (state app)))"
    and "calls (resumed gen r e app) =
      (if Suc n < length new
       then calls app @ [\<lparr>caller = r, callFile = file (new ! Suc n), callConfig = cfg\<rparr>]
       else calls app)"
proof -
  from at have r: "r < length (runs app)"
    and rn: "runs app ! r = \<lparr>captured = cfg, itemsToProcess = new, pos = n\<rparr>"
    by (simp_all add: runner_at_def)
  from rn n have p: "pos (runs app ! r) < length (itemsToProcess (runs app ! r))" by simp
  show "runner_at r new cfg (Suc n) (resumed gen r e app)"
    using r by (simp add: runner_at_def resume_runs [OF r p] rn)
  show "items (state (resumed gen r e app)) =
      (if Suc n < length new
       then upd (item_id (new ! Suc n)) (\<lambda>i. i\<lparr>status := Processing\<rparr>)
              (upd (item_id (new ! n)) (settleFn (gen e (file (new ! n)) cfg)) (items (state app)))
       else upd (item_id (new ! n)) (settleFn (gen e (file (new ! n)) cfg)) (items (state app)))"
    by (simp add: resume_enabled [OF r p] advance_items settled_upd rn nth_runner_ids)
  show "calls (resumed gen r e app) =
      (if Suc n < length new
       then calls app @ [\<lparr>caller = r, callFile = file (new ! Suc n), callConfig = cfg\<rparr>]
       else calls app)"
    by (simp add: resume_calls [OF r p] rn)
qed

lemma resume_done:
  "runner_at r new cfg n app \<Longrightarrow> length new \<le> n \<Longrightarrow> resumed gen r e app = app"
  by (rule resume_disabled) (simp add: runner_at_def)

lemma run_Nil: "ran gen r [] app = app"
  by (simp add: ran_def)

lemma run_Cons:
  "ran gen r (e # es) app =
     ran gen r es (resumed gen r e app)"
  by (simp add: ran_def)

lemma run_append:
  "ran gen r (es1 @ es2) app =
     ran gen r es2 (ran gen r es1 app)"
  by (simp add: ran_def)

lemma run_pos:
  "runner_at r new cfg n app \<Longrightarrow> n + length es \<le> length new \<Longrightarrow>
   runner_at r new cfg (n + length es) (ran gen r es app)"
proof (induction es arbitrary: n app)
  case Nil
  then show ?case by (simp add: run_Nil)
next
  case (Cons e es)
  from Cons.prems have n: "n < length new" by simp
  from resume_at(1) [OF Cons.prems(1) n]
  have "runner_at r new cfg (Suc n) (resumed gen r e app)" .
  from Cons.IH [OF this] Cons.prems(2) show ?case by (simp add: run_Cons)
qed

lemma run_ids:
  "runner_at r new cfg n app \<Longrightarrow>
   map item_id (items (state (ran gen r es app))) = map item_id (items (state app))"
proof (induction es arbitrary: n app)
  case Nil
  then show ?case by (simp add: run_Nil)
next
  case (Cons e es)
  show ?case
  proof (cases "n < length new")
    case True
    note ra = resume_at [OF Cons.prems True, where gen = gen and e = e]
    have "map item_id (items (state (resumed gen r e app))) = map item_id (items (state app))"
      by (simp add: ra(2) ids_upd settleFn_id)
    with Cons.IH [OF ra(1)] show ?thesis by (simp add: run_Cons)
  next
    case False
    then have "resumed gen r e app = app"
      using resume_done [OF Cons.prems] by simp
    with Cons.IH [OF Cons.prems] show ?thesis by (simp add: run_Cons)
  qed
qed

lemma run_calls_all:
  "runner_at r new cfg n app \<Longrightarrow> n + length es = length new \<Longrightarrow>
   calls app = base @ map (\<lambda>i. \<lparr>caller = r, callFile = file i, callConfig = cfg\<rparr>) (take (Suc n) new) \<Longrightarrow>
   calls (ran gen r es app) =
     base @ map (\<lambda>i. \<lparr>caller = r, callFile = file i, callConfig = cfg\<rparr>) new"
proof (induction es arbitrary: n app)
  case Nil
  then show ?case by (simp add: run_Nil)
next
  case (Cons e es)
  from Cons.prems(2) have n: "n < length new" by simp
  note ra = resume_at [OF Cons.prems(1) n, where gen = gen and e = e]
  have "calls (resumed gen r e app) =
      base @ map (\<lambda>i. \<lparr>caller = r, callFile = file i, callConfig = cfg\<rparr>) (take (Suc (Suc n)) new)"
  proof (cases "Suc n < length new")
    case True
    then show ?thesis by (simp add: ra(3) Cons.prems(3) take_Suc_conv_app_nth [of "Suc n"])
  next
    case False
    then show ?thesis by (simp add: ra(3) Cons.prems(3))
  qed
  from Cons.IH [OF ra(1) _ this] Cons.prems(2) show ?case by (simp add: run_Cons)
qed

lemma run_keeps:
  assumes d: "distinct (map item_id new)" and K: "K < length new"
  shows "runner_at r new cfg n app \<Longrightarrow> K < n \<Longrightarrow>
   units_at (item_id (new ! K)) P (items (state app)) \<Longrightarrow>
   units_at (item_id (new ! K)) P (items (state (ran gen r es app)))"
proof (induction es arbitrary: n app)
  case Nil
  then show ?case by (simp add: run_Nil)
next
  case (Cons e es)
  show ?case
  proof (cases "n < length new")
    case True
    note ra = resume_at [OF Cons.prems(1) True, where gen = gen and e = e]
    have ne: "item_id (new ! K) \<noteq> item_id (new ! n)"
      using d K True Cons.prems(2) by (simp add: distinct_conv_nth)
    have ne2: "Suc n < length new \<Longrightarrow> item_id (new ! K) \<noteq> item_id (new ! Suc n)"
      using d K Cons.prems(2) by (simp add: distinct_conv_nth)
    have "units_at (item_id (new ! K)) P (items (state (resumed gen r e app)))"
      using Cons.prems(3) ne ne2 by (simp add: ra(2) units_at_upd settleFn_id)
    from Cons.IH [OF ra(1) _ this] Cons.prems(2) show ?thesis by (simp add: run_Cons)
  next
    case False
    then have "resumed gen r e app = app"
      using resume_done [OF Cons.prems(1)] by simp
    with Cons.IH [OF Cons.prems] show ?thesis by (simp add: run_Cons)
  qed
qed

lemma same_but_resume:
  assumes s: "same_but x a b"
    and eq: "e = e' \<or> (r < length (runs a) \<and> pos (runs a ! r) < length (itemsToProcess (runs a ! r))
                       \<and> item_id (itemsToProcess (runs a ! r) ! pos (runs a ! r)) = x)"
  shows "same_but x (resumed gen r e a) (resumed gen r e' b)"
proof (cases "r < length (runs a) \<and> pos (runs a ! r) < length (itemsToProcess (runs a ! r))")
  case False
  from s have rb: "runs b = runs a" by (simp add: same_but_def)
  from False rb have "\<not> (r < length (runs b) \<and> pos (runs b ! r) < length (itemsToProcess (runs b ! r)))"
    by simp
  then show ?thesis using s by (simp add: resume_disabled [OF False] resume_disabled)
next
  case True
  from s have rb: "runs b = runs a" and cb: "calls b = calls a"
    and fb: "filter (\<lambda>i. item_id i \<noteq> x) (items (state b)) = filter (\<lambda>i. item_id i \<noteq> x) (items (state a))"
    by (simp_all add: same_but_def)
  let ?rn = "runs a ! r"
  obtain cfg new n where rn: "?rn = \<lparr>captured = cfg, itemsToProcess = new, pos = n\<rparr>"
    by (cases ?rn) simp
  from True rn have n: "n < length new" by simp
  from True rn have ata: "runner_at r new cfg n a" by (simp add: runner_at_def)
  from True rn rb have atb: "runner_at r new cfg n b" by (simp add: runner_at_def)
  note ra = resume_at [OF ata n, where gen = gen and e = e]
  note rb' = resume_at [OF atb n, where gen = gen and e = e']
  have g: "\<And>i::BatchItem. item_id (i\<lparr>status := Processing\<rparr>) = item_id i" by simp
  have mid: "filter (\<lambda>i. item_id i \<noteq> x) (upd (item_id (new ! n)) (settleFn (gen e (file (new ! n)) cfg)) (items (state a)))
      = filter (\<lambda>i. item_id i \<noteq> x) (upd (item_id (new ! n)) (settleFn (gen e' (file (new ! n)) cfg)) (items (state b)))"
  proof (cases "e = e'")
    case True
    then show ?thesis by (simp add: filter_upd settleFn_id fb)
  next
    case False
    with eq rn have "item_id (new ! n) = x" by simp
    then show ?thesis by (simp add: filter_upd_same settleFn_id fb)
  qed
  have "filter (\<lambda>i. item_id i \<noteq> x) (items (state (resumed gen r e a)))
      = filter (\<lambda>i. item_id i \<noteq> x) (items (state (resumed gen r e' b)))"
    unfolding ra(2) rb'(2)
    by (simp add: filter_upd [of "\<lambda>i. i\<lparr>status := Processing\<rparr>", OF g] mid)
  moreover have "runs (resumed gen r e a) = runs (resumed gen r e' b)"
    using True rb by (simp add: resume_runs)
  moreover have "calls (resumed gen r e a) = calls (resumed gen r e' b)"
    by (simp add: ra(3) rb'(3) cb)
  ultimately show ?thesis by (simp add: same_but_def)
qed

lemma same_but_run:
  "same_but x a b \<Longrightarrow> same_but x (ran gen r es a) (ran gen r es b)"
proof (induction es arbitrary: a b)
  case Nil
  then show ?case by (simp add: run_Nil)
next
  case (Cons e es)
  from same_but_resume [OF Cons.prems, where e = e and e' = e and r = r and gen = gen]
  have "same_but x (resumed gen r e a) (resumed gen r e b)" by simp
  from Cons.IH [OF this] show ?case by (simp add: run_Cons)
qed

lemma start_at:
  "new \<noteq> [] \<Longrightarrow> runner_at (length (runs app)) new cfg 0 (processBatchQueue_start cfg new app)"
  by (simp add: runner_at_def start_runs)

text \<open>A run without interference is the session in which only the runner's calls settle.\<close>

lemma run_GenSettled:
  "run gen (map (GenSettled r) es) app = processBatchQueue_run gen r es app"
  by (induction es arbitrary: app) (simp_all split: option.splits)

text \<open>A capability that never rejects with \<^verbatim>\<open>null\<close> or \<^verbatim>\<open>undefined\<close> never ends the session.\<close>

lemma run_eq:
  "(\<And>e f c. gen e f c \<noteq> Inl Nullish) \<Longrightarrow>
   processBatchQueue_run gen r es app = Some (ran gen r es app)"
  by (induction es arbitrary: app) (simp_all add: run_Nil run_Cons resume_eq)

lemma generateStockMetadata_not_Nullish: "generateStockMetadata e f c \<noteq> Inl Nullish"
  by (cases e) (simp_all add: generateStockMetadata_def)

lemma ran_isolation:
  fixes gen :: "'e Generate"
  assumes ids: "distinct (map item_id new)"
    and K: "K < length new" and len: "length es = length new"
    and fails: "gen (es ! K) (file (new ! K)) cfg = Inl (JsError m)"
  shows "(\<forall>i \<in> set (items (state (ran gen (length (runs app)) es
                                   (processBatchQueue_start cfg new app)))).
            item_id i = item_id (new ! K) \<longrightarrow> status i = Error \<and> error i = Some (case m of Some text \<Rightarrow> if text \<noteq> [] then text else ''Failed to process''
                                    | None \<Rightarrow> ''Failed to process''))
    \<and> map item_id (items (state (ran gen (length (runs app)) es
                                   (processBatchQueue_start cfg new app))))
        = map item_id (items (state app))
    \<and> calls (ran gen (length (runs app)) es (processBatchQueue_start cfg new app))
        = calls app @ map (\<lambda>i. \<lparr>caller = length (runs app), callFile = file i, callConfig = cfg\<rparr>) new
    \<and> (\<forall>e. filter (\<lambda>i. item_id i \<noteq> item_id (new ! K))
              (items (state (ran gen (length (runs app)) (es[K := e])
                               (processBatchQueue_start cfg new app))))
           = filter (\<lambda>i. item_id i \<noteq> item_id (new ! K))
              (items (state (ran gen (length (runs app)) es
                               (processBatchQueue_start cfg new app)))))"
proof -
  define r where "r = length (runs app)"
  define start where "start = processBatchQueue_start cfg new app"
  define x where "x = item_id (new ! K)"
  define mid where "mid = ran gen r (take K es) start"
  from K have ne: "new \<noteq> []" by auto
  from K len have Kes: "K < length es" by simp
  have at0: "runner_at r new cfg 0 start"
    unfolding r_def start_def by (rule start_at [OF ne])
  have split: "es = take K es @ es ! K # drop (Suc K) es"
    using Kes by (simp add: id_take_nth_drop)
  have split': "\<And>e. es[K := e] = take K es @ e # drop (Suc K) es"
    using Kes by (simp add: upd_conv_take_nth_drop)
  have lenK: "length (take K es) = K" using Kes by simp
  have atK: "runner_at r new cfg K mid"
    using run_pos [OF at0, where es = "take K es" and gen = gen] K lenK by (simp add: mid_def)
  have whole: "\<And>e. ran gen r (es[K := e]) start =
      ran gen r (drop (Suc K) es) (resumed gen r e mid)"
    by (simp add: split' run_append run_Cons mid_def)
  have whole0: "ran gen r es start =
      ran gen r (drop (Suc K) es) (resumed gen r (es ! K) mid)"
    using whole [of "es ! K"] by simp
  \<comment> \<open>the failed unit\<close>
  note ra = resume_at [OF atK K, where gen = gen and e = "es ! K"]
  have "units_at x (\<lambda>i. status i = Error \<and> error i = Some (case m of Some text \<Rightarrow> if text \<noteq> [] then text else ''Failed to process''
                                    | None \<Rightarrow> ''Failed to process''))
      (upd x (settleFn (Inl (JsError m))) (items (state mid)))"
    by (simp add: units_at_upd settleFn_id) (simp add: units_at_def settleFn_def errorMessage_def)
  moreover have "Suc K < length new \<Longrightarrow> x \<noteq> item_id (new ! Suc K)"
    using ids K by (simp add: x_def distinct_conv_nth)
  ultimately have "units_at x (\<lambda>i. status i = Error \<and> error i = Some (case m of Some text \<Rightarrow> if text \<noteq> [] then text else ''Failed to process''
                                    | None \<Rightarrow> ''Failed to process''))
      (items (state (resumed gen r (es ! K) mid)))"
    by (simp add: ra(2) fails units_at_upd x_def)
  from run_keeps [OF ids K ra(1) _ this [unfolded x_def], where es = "drop (Suc K) es" and gen = gen]
  have one: "\<forall>i \<in> set (items (state (ran gen r es start))).
      item_id i = item_id (new ! K) \<longrightarrow> status i = Error \<and> error i = Some (case m of Some text \<Rightarrow> if text \<noteq> [] then text else ''Failed to process''
                                    | None \<Rightarrow> ''Failed to process'')"
    by (simp add: whole0 units_at_def)
  \<comment> \<open>the units present\<close>
  have "map item_id (items (state start)) = map item_id (items (state app))"
    by (simp add: start_def start_items ids_upd)
  with run_ids [OF at0, where gen = gen and es = es]
  have two: "map item_id (items (state (ran gen r es start))) = map item_id (items (state app))"
    by simp
  \<comment> \<open>the calls made\<close>
  have "take (Suc 0) new = [new ! 0]" using ne by (cases new) simp_all
  then have "calls start = calls app @
      map (\<lambda>i. \<lparr>caller = r, callFile = file i, callConfig = cfg\<rparr>) (take (Suc 0) new)"
    using ne by (simp add: start_def start_calls r_def)
  from run_calls_all [OF at0 _ this, where es = es and gen = gen] len
  have three: "calls (ran gen r es start) =
      calls app @ map (\<lambda>i. \<lparr>caller = r, callFile = file i, callConfig = cfg\<rparr>) new"
    by simp
  \<comment> \<open>the other units\<close>
  have four: "filter (\<lambda>i. item_id i \<noteq> item_id (new ! K)) (items (state (ran gen r (es[K := e]) start)))
      = filter (\<lambda>i. item_id i \<noteq> item_id (new ! K)) (items (state (ran gen r es start)))" for e
  proof -
    have refl: "same_but x mid mid" by (simp add: same_but_def)
    from atK K have "r < length (runs mid) \<and> pos (runs mid ! r) < length (itemsToProcess (runs mid ! r))
        \<and> item_id (itemsToProcess (runs mid ! r) ! pos (runs mid ! r)) = x"
      by (simp add: runner_at_def x_def)
    then have "same_but x (resumed gen r e mid) (resumed gen r (es ! K) mid)"
      by (intro same_but_resume [OF refl]) simp
    from same_but_run [OF this, where gen = gen and r = r and es = "drop (Suc K) es"]
    show ?thesis by (simp add: whole whole0 same_but_def x_def)
  qed
  from one two three four show ?thesis
    unfolding r_def start_def by blast
qed


text \<open>
  C2, as the code has it. A batch with pairwise distinct ids is run from the call of
  \<^verbatim>\<open>processBatchQueue\<close> to its end, against a generation capability that never rejects
  with \<^verbatim>\<open>null\<close> or \<^verbatim>\<open>undefined\<close> (as \<open>generateStockMetadata\<close>, which rethrows every failure
  as an \<^verbatim>\<open>Error\<close>), and the call for unit K fails with a value whose message is \<open>m\<close>. Then
  the run ends normally; every unit with the id of unit K ends in \<^verbatim>\<open>error\<close> with the
  message \<open>m\<close>, or with \<^verbatim>\<open>Failed to process\<close> when \<open>m\<close> is absent or empty; the queue holds
  the same units as before; one generation call was made for every unit of the batch, in
  order, those after K included; and every unit with another id is exactly what it is in
  the run where the call for unit K settles in any other way.
\<close>

theorem failure_isolation:
  fixes gen :: "'e Generate"
  assumes ids: "distinct (map item_id new)"
    and K: "K < length new" and len: "length es = length new"
    and objects: "\<And>e f c. gen e f c \<noteq> Inl Nullish"
    and fails: "gen (es ! K) (file (new ! K)) cfg = Inl (JsError m)"
  shows "\<exists>final.
      processBatchQueue_run gen (length (runs app)) es (processBatchQueue_start cfg new app) = Some final
    \<and> (\<forall>i \<in> set (items (state final)).
          item_id i = item_id (new ! K) \<longrightarrow>
          status i = Error
          \<and> error i = Some (case m of Some text \<Rightarrow> if text \<noteq> [] then text else ''Failed to process''
                                    | None \<Rightarrow> ''Failed to process''))
    \<and> map item_id (items (state final)) = map item_id (items (state app))
    \<and> calls final
        = calls app @ map (\<lambda>i. \<lparr>caller = length (runs app), callFile = file i, callConfig = cfg\<rparr>) new
    \<and> (\<forall>e. map_option (\<lambda>other. filter (\<lambda>i. item_id i \<noteq> item_id (new ! K)) (items (state other)))
              (processBatchQueue_run gen (length (runs app)) (es[K := e])
                 (processBatchQueue_start cfg new app))
           = Some (filter (\<lambda>i. item_id i \<noteq> item_id (new ! K)) (items (state final))))"
proof -
  let ?start = "processBatchQueue_start cfg new app"
  let ?final = "ran gen (length (runs app)) es ?start"
  have runs: "\<And>es'. processBatchQueue_run gen (length (runs app)) es' ?start
      = Some (ran gen (length (runs app)) es' ?start)"
    by (rule run_eq [OF objects])
  note iso = ran_isolation [where gen = gen and new = new and K = K and es = es and cfg = cfg
      and m = m and app = app, OF ids K len fails]
  from iso have one: "\<forall>i \<in> set (items (state ?final)).
          item_id i = item_id (new ! K) \<longrightarrow>
          status i = Error
          \<and> error i = Some (case m of Some text \<Rightarrow> if text \<noteq> [] then text else ''Failed to process''
                                    | None \<Rightarrow> ''Failed to process'')"
    by blast
  from iso have two: "map item_id (items (state ?final)) = map item_id (items (state app))"
    by blast
  from iso have three: "calls ?final
        = calls app @ map (\<lambda>i. \<lparr>caller = length (runs app), callFile = file i, callConfig = cfg\<rparr>) new"
    by blast
  from iso have "\<forall>e. filter (\<lambda>i. item_id i \<noteq> item_id (new ! K))
              (items (state (ran gen (length (runs app)) (es[K := e]) ?start)))
           = filter (\<lambda>i. item_id i \<noteq> item_id (new ! K)) (items (state ?final))"
    by blast
  then have four: "\<forall>e. map_option (\<lambda>other. filter (\<lambda>i. item_id i \<noteq> item_id (new ! K)) (items (state other)))
              (processBatchQueue_run gen (length (runs app)) (es[K := e]) ?start)
           = Some (filter (\<lambda>i. item_id i \<noteq> item_id (new ! K)) (items (state ?final)))"
    by (simp add: runs)
  from runs [of es] one two three four show ?thesis by blast
qed

theorem failure_isolation_witness:
  "distinct (map item_id batch3) \<and> (1::nat) < length batch3
   \<and> length [ApiText d0, ApiThrows, ApiText d0] = length batch3
   \<and> (\<forall>e f c. generateStockMetadata e f c \<noteq> Inl Nullish)
   \<and> generateStockMetadata ([ApiText d0, ApiThrows, ApiText d0] ! 1) (file (batch3 ! 1)) config0
       = Inl (JsError (Some ''Gagal menganalisis file. Pastikan API Key valid dan file tidak rusak.''))
   \<and> map_option (\<lambda>final. (map (\<lambda>i. (item_id i, status i, error i)) (items (state final)),
                            map (\<lambda>c. name (callFile c)) (calls final)))
        (processBatchQueue_run generateStockMetadata (length (runs appBatch3))
           [ApiText d0, ApiThrows, ApiText d0] (processBatchQueue_start config0 batch3 appBatch3))
      = Some ([(''aa'', Completed, None),
               (''bb'', Error, Some ''Gagal menganalisis file. Pastikan API Key valid dan file tidak rusak.''),
               (''cc'', Completed, None)],
              [''a.jpg'', ''deck.pdf'', ''a.jpg''])
   \<and> map_option (\<lambda>final. map (\<lambda>i. (item_id i, status i, error i)) (items (state final)))
        (processBatchQueue_run (\<lambda>m f c. Inl (JsError m)) (length (runs appBatch3))
           [Some ''boom'', None, Some []] (processBatchQueue_start config0 batch3 appBatch3))
      = Some [(''aa'', Error, Some ''boom''),
              (''bb'', Error, Some ''Failed to process''),
              (''cc'', Error, Some ''Failed to process'')]"
proof -
  have b: "batch3 = [\<lparr>item_id = ''aa'', file = photo, status = Pending, data = None, error = None\<rparr>,
                     \<lparr>item_id = ''bb'', file = deck, status = Pending, data = None, error = None\<rparr>,
                     \<lparr>item_id = ''cc'', file = photo, status = Pending, data = None, error = None\<rparr>]"
    by (simp add: batch3_def newItems_def rand1_def generateId_def substring_def)
  have h1: "distinct (map item_id batch3)" and h2: "(1::nat) < length batch3"
    and h3: "length [ApiText d0, ApiThrows, ApiText d0] = length batch3"
    and h3': "length [Some ''boom'', None, Some []] = length batch3"
    and h4: "generateStockMetadata ([ApiText d0, ApiThrows, ApiText d0] ! 1) (file (batch3 ! 1)) config0
       = Inl (JsError (Some ''Gagal menganalisis file. Pastikan API Key valid dan file tidak rusak.''))"
    and h4': "(\<lambda>m f c. Inl (JsError m)) ([Some ''boom'', None, Some []] ! 1) (file (batch3 ! 1)) config0
       = Inl (JsError None)"
    by (simp_all add: b generateStockMetadata_def)
  have h5: "\<forall>e f c. generateStockMetadata e f c \<noteq> Inl Nullish"
    by (simp add: generateStockMetadata_not_Nullish)
  have h5': "\<And>e f c. (\<lambda>m f c. Inl (JsError m)) e f c \<noteq> (Inl Nullish :: JsError + StockMetadata)"
    by simp
  have run3: "map_option (\<lambda>final. (map (\<lambda>i. (item_id i, status i, error i)) (items (state final)),
                            map (\<lambda>c. name (callFile c)) (calls final)))
        (processBatchQueue_run generateStockMetadata (length (runs appBatch3))
           [ApiText d0, ApiThrows, ApiText d0] (processBatchQueue_start config0 batch3 appBatch3))
      = Some ([(''aa'', Completed, None),
               (''bb'', Error, Some ''Gagal menganalisis file. Pastikan API Key valid dan file tidak rusak.''),
               (''cc'', Completed, None)],
              [''a.jpg'', ''deck.pdf'', ''a.jpg''])"
    by (simp add: b appBatch3_def app_defs errorMessage_def photo_def deck_def)
  have run3': "map_option (\<lambda>final. map (\<lambda>i. (item_id i, status i, error i)) (items (state final)))
        (processBatchQueue_run (\<lambda>m f c. Inl (JsError m)) (length (runs appBatch3))
           [Some ''boom'', None, Some []] (processBatchQueue_start config0 batch3 appBatch3))
      = Some [(''aa'', Error, Some ''boom''),
              (''bb'', Error, Some ''Failed to process''),
              (''cc'', Error, Some ''Failed to process'')]"
    by (simp add: b appBatch3_def app_defs errorMessage_def)
  from failure_isolation [where gen = generateStockMetadata and new = batch3 and K = 1
      and es = "[ApiText d0, ApiThrows, ApiText d0]" and cfg = config0 and app = appBatch3
      and m = "Some ''Gagal menganalisis file. Pastikan API Key valid dan file tidak rusak.''",
      OF h1 h2 h3 generateStockMetadata_not_Nullish h4]
  have real: "\<exists>final. processBatchQueue_run generateStockMetadata (length (runs appBatch3))
           [ApiText d0, ApiThrows, ApiText d0] (processBatchQueue_start config0 batch3 appBatch3) = Some final"
    by blast
  from failure_isolation [where gen = "\<lambda>m f c. Inl (JsError m)" and new = batch3 and K = 1
      and es = "[Some ''boom'', None, Some []]" and cfg = config0 and app = appBatch3
      and m = None, OF h1 h2 h3' h5' h4']
  have fallback: "\<exists>final. processBatchQueue_run (\<lambda>m f c. Inl (JsError m)) (length (runs appBatch3))
           [Some ''boom'', None, Some []] (processBatchQueue_start config0 batch3 appBatch3) = Some final"
    by blast
  from real fallback h1 h2 h3 h4 h5 run3 run3' show ?thesis by blast
qed

text \<open>
  C2 as stated fails. When two units of the batch share an id, the failure of the first
  call marks both \<^verbatim>\<open>error\<close> and the success of the second call then marks both
  \<^verbatim>\<open>completed\<close>: the unit whose call failed does not end in \<^verbatim>\<open>error\<close>, and the other
  unit keeps the error message, which it does not have in the run where the first call
  succeeds. And when a generation capability rejects with \<^verbatim>\<open>null\<close> or \<^verbatim>\<open>undefined\<close>, the
  updater of lines 73-78 throws on \<^verbatim>\<open>error.message\<close>: no unit is marked \<^verbatim>\<open>error\<close> and the
  run does not end normally.
\<close>

theorem failure_isolation_counterexample:
  "generateStockMetadata ApiThrows (file (twins ! 0)) config0 = Inl (JsError (Some ''Gagal menganalisis file. Pastikan API Key valid dan file tidak rusak.''))
   \<and> map_option (\<lambda>final. map (\<lambda>i. (name (file i), item_id i, status i, error i)) (items (state final)))
        (processBatchQueue_run generateStockMetadata (length (runs appTwins))
           [ApiThrows, ApiText d0] (processBatchQueue_start config0 twins appTwins))
      = Some [(''a.jpg'', ''abc'', Completed, Some ''Gagal menganalisis file. Pastikan API Key valid dan file tidak rusak.''),
              (''deck.pdf'', ''abc'', Completed, Some ''Gagal menganalisis file. Pastikan API Key valid dan file tidak rusak.'')]
   \<and> map_option (\<lambda>final. map (\<lambda>i. (name (file i), item_id i, status i, error i)) (items (state final)))
        (processBatchQueue_run generateStockMetadata (length (runs appTwins))
           [ApiText d0, ApiText d0] (processBatchQueue_start config0 twins appTwins))
      = Some [(''a.jpg'', ''abc'', Completed, None), (''deck.pdf'', ''abc'', Completed, None)]
   \<and> processBatchQueue_run (\<lambda>e f c. e) (length (runs appBatch3))
        [Inr d0, Inl Nullish, Inr d0] (processBatchQueue_start config0 batch3 appBatch3) = None"
  by (simp add: twins_def appTwins_def batch3_def appBatch3_def newItems_def rand0_def rand1_def
      app_defs errorMessage_def photo_def deck_def)

end
